theory Spec2Isabelle
  imports Main "HOL-Library.Word" "HOL-Library.Sublist"
begin

section \<open>The Smaz codec: data\<close>

text \<open>
  Smaz compresses short byte strings against a fixed codebook. The Go package is the
  primary implementation; the PHP class is a second implementation of the same format.
  Bytes are 8-bit words. Go strings are byte sequences, modelled as \<^typ>\<open>string\<close>;
  \<open>bytes\<close> is the conversion \<^verbatim>\<open>[]byte(s)\<close>.
\<close>

type_synonym byte = "8 word"

definition bytes :: "string \<Rightarrow> byte list" where
  "bytes s = map of_char s"

text \<open>The codebook literal \<^verbatim>\<open>codeStrings\<close> of smaz.go, entry by entry.\<close>

definition codeStrings :: "string list" where
  "codeStrings = [
    '' '', ''the'', ''e'', ''t'', ''a'', ''of'', ''o'', ''and'', ''i'', ''n'', ''s'',
    ''e '', ''r'', '' th'', '' t'', ''in'', ''he'', ''th'', ''h'', ''he '', ''to'',
    [CHR 0x0D, CHR 0x0A], ''l'', ''s '', ''d'', '' a'', ''an'', ''er'', ''c'', '' o'',
    ''d '', ''on'', '' of'', ''re'', ''of '', ''t '', '', '', ''is'', ''u'', ''at'',
    ''   '', ''n '', ''or'', ''which'', ''f'', ''m'', ''as'', ''it'', ''that'', [CHR 0x0A],
    ''was'', ''en'', ''  '', '' w'', ''es'', '' an'', '' i'', [CHR 0x0D], ''f '', ''g'',
    ''p'', ''nd'', '' s'', ''nd '', ''ed '', ''w'', ''ed'', ''http://'', ''for'', ''te'',
    ''ing'', ''y '', ''The'', '' c'', ''ti'', ''r '', ''his'', ''st'', '' in'', ''ar'',
    ''nt'', '','', '' to'', ''y'', ''ng'', '' h'', ''with'', ''le'', ''al'', ''to '', ''b'',
    ''ou'', ''be'', ''were'', '' b'', ''se'', ''o '', ''ent'', ''ha'', ''ng '', ''their'',
    [CHR 0x22], ''hi'', ''from'', '' f'', ''in '', ''de'', ''ion'', ''me'', ''v'', ''.'',
    ''ve'', ''all'', ''re '', ''ri'', ''ro'', ''is '', ''co'', ''f t'', ''are'', ''ea'',
    ''. '', ''her'', '' m'', ''er '', '' p'', ''es '', ''by'', ''they'', ''di'', ''ra'',
    ''ic'', ''not'', ''s, '', ''d t'', ''at '', ''ce'', ''la'', ''h '', ''ne'', ''as '',
    ''tio'', ''on '', ''n t'', ''io'', ''we'', '' a '', ''om'', '', a'', ''s o'', ''ur'',
    ''li'', ''ll'', ''ch'', ''had'', ''this'', ''e t'', ''g '',
    ''e'' @ [CHR 0x0D, CHR 0x0A], '' wh'', ''ere'', '' co'', ''e o'', ''a '', ''us'',
    '' d'', ''ss'', [CHR 0x0A, CHR 0x0D, CHR 0x0A], [CHR 0x0D, CHR 0x0A, CHR 0x0D],
    ''='' @ [CHR 0x22], '' be'', '' e'', ''s a'', ''ma'', ''one'', ''t t'', ''or '',
    ''but'', ''el'', ''so'', ''l '', ''e s'', ''s,'', ''no'', ''ter'', '' wa'', ''iv'',
    ''ho'', ''e a'', '' r'', ''hat'', ''s t'', ''ns'', ''ch '', ''wh'', ''tr'', ''ut'',
    ''/'', ''have'', ''ly '', ''ta'', '' ha'', '' on'', ''tha'', ''-'', '' l'', ''ati'',
    ''en '', ''pe'', '' re'', ''there'', ''ass'', ''si'', '' fo'', ''wa'', ''ec'', ''our'',
    ''who'', ''its'', ''z'', ''fo'', ''rs'', ''>'', ''ot'', ''un'', ''<'', ''im'', ''th '',
    ''nc'', ''ate'', ''><'', ''ver'', ''ad'', '' we'', ''ly'', ''ee'', '' n'', ''id'',
    '' cl'', ''ac'', ''il'', ''</'', ''rt'', '' wi'', ''div'', ''e, '', '' it'', ''whi'',
    '' ma'', ''ge'', ''x'', ''e c'', ''men'', ''.com''
  ]"

text \<open>The two escape codes.\<close>

definition verbatimByte :: byte where
  "verbatimByte = 254"

definition verbatimString :: byte where
  "verbatimString = 255"

subsection \<open>The prefix trie\<close>

text \<open>
  A node holds an array of 256 child pointers indexed by a byte (a total function from
  bytes to optional children), the code stored at the node and the terminal flag.
  \<open>emptyNode\<close> is Go's zero value \<^verbatim>\<open>&trieNode{}\<close>. The trie is a tree owned by its
  root, so the in-place insertion is modelled by returning the updated node.
\<close>

datatype trieNode =
  TrieNode (branches: "byte \<Rightarrow> trieNode option") (val: byte) (terminal: bool)

definition emptyNode :: trieNode where
  "emptyNode = TrieNode (\<lambda>_. None) 0 False"

fun put :: "trieNode \<Rightarrow> byte list \<Rightarrow> byte \<Rightarrow> trieNode" where
  "put n [] v = TrieNode (branches n) v True"
| "put n (c # key) v =
     (let child = (case branches n c of None \<Rightarrow> emptyNode | Some m \<Rightarrow> m)
      in TrieNode ((branches n)(c := Some (put child key v))) (val n) (terminal n))"

text \<open>
  \<open>findLongestPrefix\<close>: the loop over the input carries the position \<open>i\<close>, the current
  node and the last terminal node seen (\<open>lastMatch\<close>, \<open>lastCode\<close>); a missing branch
  is the \<^verbatim>\<open>break\<close>.
\<close>

fun findLongestPrefix_loop ::
  "trieNode \<Rightarrow> byte list \<Rightarrow> nat \<Rightarrow> nat \<Rightarrow> byte \<Rightarrow> nat \<times> byte" where
  "findLongestPrefix_loop n [] i lastMatch lastCode = (lastMatch, lastCode)"
| "findLongestPrefix_loop n (c # input) i lastMatch lastCode =
     (case branches n c of
        None \<Rightarrow> (lastMatch, lastCode)
      | Some m \<Rightarrow>
          if terminal m then findLongestPrefix_loop m input (i + 1) (i + 1) (val m)
          else findLongestPrefix_loop m input (i + 1) lastMatch lastCode)"

definition findLongestPrefix :: "trieNode \<Rightarrow> byte list \<Rightarrow> nat \<times> byte" where
  "findLongestPrefix n input = findLongestPrefix_loop n input 0 0 0"

subsection \<open>Package initialisation\<close>

text \<open>
  \<open>init\<close> fills \<open>decodeMap\<close> slot by slot and inserts every codebook string into the
  trie with its index truncated to a byte. The slots written are in range, since
  \<open>decodeMap\<close> is made with the length of \<open>codeStrings\<close>. (\<open>encodeMap\<close> is filled too, but
  neither \<open>Compress\<close> nor \<open>Decompress\<close> reads it.)
\<close>

definition init_step :: "nat \<times> string \<Rightarrow> string list \<times> trieNode \<Rightarrow> string list \<times> trieNode" where
  "init_step p g = (case p of (i, s) \<Rightarrow> ((fst g)[i := s], put (snd g) (bytes s) (of_nat i)))"

definition init :: "string list \<times> trieNode" where
  "init = fold init_step (enumerate 0 codeStrings)
            (replicate (length codeStrings) [], emptyNode)"

definition decodeMap :: "string list" where
  "decodeMap = fst init"

definition codeTrie :: trieNode where
  "codeTrie = snd init"

section \<open>The Go encoder and decoder\<close>

datatype SmazError = SmazError (message: string)

text \<open>\<open>flushVerbatim\<close> frames the verbatim buffer in chunks of at most 255 bytes.\<close>

function flushVerbatim_loop :: "byte list \<Rightarrow> byte list \<Rightarrow> nat \<Rightarrow> byte list" where
  "flushVerbatim_loop out verbatim pos =
     (if pos < length verbatim then
        let chunkSize = (if length verbatim - pos < 255 then length verbatim - pos else 255);
            out1 = (if chunkSize = 1 then out @ [verbatimByte]
                    else out @ [verbatimString, of_nat chunkSize]);
            out2 = out1 @ take chunkSize (drop pos verbatim)
        in flushVerbatim_loop out2 verbatim (pos + chunkSize)
      else out)"
  by pat_completeness auto
termination
  by (relation "measure (\<lambda>(out, verbatim, pos). length verbatim - pos)") (auto split: if_splits)

definition flushVerbatim :: "byte list \<Rightarrow> byte list \<Rightarrow> byte list" where
  "flushVerbatim out verbatim = flushVerbatim_loop out verbatim 0"

text \<open>
  The main loop of \<open>Compress\<close>, on the state (cursor, output, verbatim buffer). The trie
  is the package variable \<open>codeTrie\<close>, passed explicitly. The slice
  \<^verbatim>\<open>input[i:i+maxLen]\<close> is in range because \<open>maxLen \<le> inputLen - i\<close>. A nil slice is
  \<open>None\<close>; the slice returned on success is made by \<^verbatim>\<open>make\<close> and is never nil.
\<close>

function Compress_loop ::
  "trieNode \<Rightarrow> byte list \<Rightarrow> nat \<Rightarrow> byte list \<Rightarrow> byte list \<Rightarrow> byte list \<times> byte list" where
  "Compress_loop t input i output verbatim =
     (if i < length input then
        let maxLen = (if length input - i < 7 then length input - i else 7);
            r = findLongestPrefix t (take maxLen (drop i input));
            matchLen = fst r;
            code = snd r
        in if matchLen > 0 then
             let output1 = (if length verbatim > 0 then flushVerbatim output verbatim else output);
                 verbatim1 = (if length verbatim > 0 then [] else verbatim)
             in Compress_loop t input (i + matchLen) (output1 @ [code]) verbatim1
           else
             let verbatim1 = verbatim @ [input ! i]
             in if length verbatim1 = 255
                then Compress_loop t input (i + 1) (flushVerbatim output verbatim1) []
                else Compress_loop t input (i + 1) output verbatim1
      else (output, verbatim))"
  by pat_completeness auto
termination
  by (relation "measure (\<lambda>(t, input, i, output, verbatim). length input - i)") auto

definition Compress :: "byte list option \<Rightarrow> SmazError + byte list" where
  "Compress input =
     (case input of
        None \<Rightarrow> Inl (SmazError ''input cannot be nil'')
      | Some inp \<Rightarrow>
          (case Compress_loop codeTrie inp 0 [] [] of
             (output, verbatim) \<Rightarrow>
               Inr (if length verbatim > 0 then flushVerbatim output verbatim else output)))"

text \<open>
  The loop of \<open>Decompress\<close>, on the state (cursor, output). The decode table is the
  package variable \<open>decodeMap\<close>, passed explicitly. Every index read is guarded by the
  check before it, as in the source.
\<close>

function Decompress_loop ::
  "string list \<Rightarrow> byte list \<Rightarrow> nat \<Rightarrow> byte list \<Rightarrow> SmazError + byte list" where
  "Decompress_loop dm input i output =
     (if i < length input then
        let code = input ! i
        in if code = verbatimByte then
             if i + 1 \<ge> length input then Inl (SmazError ''incomplete verbatim byte sequence'')
             else Decompress_loop dm input (i + 2) (output @ [input ! (i + 1)])
           else if code = verbatimString then
             if i + 1 \<ge> length input then Inl (SmazError ''incomplete verbatim string length'')
             else
               let len = unat (input ! (i + 1))
               in if i + 2 + len > length input
                  then Inl (SmazError ''incomplete verbatim string data'')
                  else Decompress_loop dm input (i + 2 + len)
                         (output @ take len (drop (i + 2) input))
           else
             if unat code \<ge> length dm then Inl (SmazError ''invalid code'')
             else Decompress_loop dm input (i + 1) (output @ bytes (dm ! unat code))
      else Inr output)"
  by pat_completeness auto
termination
  by (relation "measure (\<lambda>(dm, input, i, output). length input - i)") auto

definition Decompress :: "byte list option \<Rightarrow> SmazError + byte list" where
  "Decompress input =
     (case input of
        None \<Rightarrow> Inl (SmazError ''input cannot be nil'')
      | Some inp \<Rightarrow> Decompress_loop decodeMap inp 0 [])"

section \<open>The PHP encoder and decoder\<close>

text \<open>
  PHP strings are byte strings, modelled as byte lists; \<open>chr\<close> is \<open>of_nat\<close> and \<open>ord\<close> is
  \<open>unat\<close>. The table is the literal \<^verbatim>\<open>$decodeMap\<close> of smaz.php, entry by entry.
\<close>

definition php_decodeMap :: "byte list list" where
  "php_decodeMap = map bytes [
    '' '', ''the'', ''e'', ''t'', ''a'', ''of'', ''o'', ''and'', ''i'', ''n'', ''s'',
    ''e '', ''r'', '' th'', '' t'', ''in'', ''he'', ''th'', ''h'', ''he '', ''to'',
    [CHR 0x0D, CHR 0x0A], ''l'', ''s '', ''d'', '' a'', ''an'', ''er'', ''c'', '' o'',
    ''d '', ''on'', '' of'', ''re'', ''of '', ''t '', '', '', ''is'', ''u'', ''at'',
    ''   '', ''n '', ''or'', ''which'', ''f'', ''m'', ''as'', ''it'', ''that'', [CHR 0x0A],
    ''was'', ''en'', ''  '', '' w'', ''es'', '' an'', '' i'', [CHR 0x0D], ''f '', ''g'',
    ''p'', ''nd'', '' s'', ''nd '', ''ed '', ''w'', ''ed'', ''http://'', ''for'', ''te'',
    ''ing'', ''y '', ''The'', '' c'', ''ti'', ''r '', ''his'', ''st'', '' in'', ''ar'',
    ''nt'', '','', '' to'', ''y'', ''ng'', '' h'', ''with'', ''le'', ''al'', ''to '', ''b'',
    ''ou'', ''be'', ''were'', '' b'', ''se'', ''o '', ''ent'', ''ha'', ''ng '', ''their'',
    [CHR 0x22], ''hi'', ''from'', '' f'', ''in '', ''de'', ''ion'', ''me'', ''v'', ''.'',
    ''ve'', ''all'', ''re '', ''ri'', ''ro'', ''is '', ''co'', ''f t'', ''are'', ''ea'',
    ''. '', ''her'', '' m'', ''er '', '' p'', ''es '', ''by'', ''they'', ''di'', ''ra'',
    ''ic'', ''not'', ''s, '', ''d t'', ''at '', ''ce'', ''la'', ''h '', ''ne'', ''as '',
    ''tio'', ''on '', ''n t'', ''io'', ''we'', '' a '', ''om'', '', a'', ''s o'', ''ur'',
    ''li'', ''ll'', ''ch'', ''had'', ''this'', ''e t'', ''g '',
    ''e'' @ [CHR 0x0D, CHR 0x0A], '' wh'', ''ere'', '' co'', ''e o'', ''a '', ''us'',
    '' d'', ''ss'', [CHR 0x0A, CHR 0x0D, CHR 0x0A], [CHR 0x0D, CHR 0x0A, CHR 0x0D],
    ''='' @ [CHR 0x22], '' be'', '' e'', ''s a'', ''ma'', ''one'', ''t t'', ''or '',
    ''but'', ''el'', ''so'', ''l '', ''e s'', ''s,'', ''no'', ''ter'', '' wa'', ''iv'',
    ''ho'', ''e a'', '' r'', ''hat'', ''s t'', ''ns'', ''ch '', ''wh'', ''tr'', ''ut'',
    ''/'', ''have'', ''ly '', ''ta'', '' ha'', '' on'', ''tha'', ''-'', '' l'', ''ati'',
    ''en '', ''pe'', '' re'', ''there'', ''ass'', ''si'', '' fo'', ''wa'', ''ec'', ''our'',
    ''who'', ''its'', ''z'', ''fo'', ''rs'', ''>'', ''ot'', ''un'', ''<'', ''im'', ''th '',
    ''nc'', ''ate'', ''><'', ''ver'', ''ad'', '' we'', ''ly'', ''ee'', '' n'', ''id'',
    '' cl'', ''ac'', ''il'', ''</'', ''rt'', '' wi'', ''div'', ''e, '', '' it'', ''whi'',
    '' ma'', ''ge'', ''x'', ''e c'', ''men'', ''.com''
  ]"

text \<open>\<^verbatim>\<open>array_flip\<close>: values become keys; a later key overwrites an earlier one.\<close>

definition array_flip :: "byte list list \<Rightarrow> (byte list \<rightharpoonup> nat)" where
  "array_flip a = fold (\<lambda>p m. case p of (i, s) \<Rightarrow> m(s \<mapsto> i)) (enumerate 0 a) Map.empty"

definition getEncodeMap :: "byte list \<rightharpoonup> nat" where
  "getEncodeMap = array_flip php_decodeMap"

text \<open>
  The inner \<^verbatim>\<open>for ($j = $maxLen; $j > 0; $j--)\<close> of \<open>Smaz::compress\<close>: the first \<open>j\<close>,
  counting down, whose chunk \<^verbatim>\<open>substr($input, $i, $j)\<close> is a key of the encode map.
\<close>

fun php_match :: "(byte list \<rightharpoonup> nat) \<Rightarrow> byte list \<Rightarrow> nat \<Rightarrow> nat \<Rightarrow> (nat \<times> nat) option" where
  "php_match em input i 0 = None"
| "php_match em input i (Suc j) =
     (case em (take (Suc j) (drop i input)) of
        Some c \<Rightarrow> Some (Suc j, c)
      | None \<Rightarrow> php_match em input i j)"

function php_flushVerbatim_loop :: "byte list \<Rightarrow> byte list \<Rightarrow> nat \<Rightarrow> byte list" where
  "php_flushVerbatim_loop output verbatim pos =
     (if pos < length verbatim then
        let chunkSize = min 255 (length verbatim - pos);
            chunk = take chunkSize (drop pos verbatim);
            output1 = (if chunkSize = 1 then output @ [of_nat 254]
                       else output @ [of_nat 255] @ [of_nat chunkSize])
        in php_flushVerbatim_loop (output1 @ chunk) verbatim (pos + chunkSize)
      else output)"
  by pat_completeness auto
termination
  by (relation "measure (\<lambda>(output, verbatim, pos). length verbatim - pos)") auto

definition php_flushVerbatim :: "byte list \<Rightarrow> byte list" where
  "php_flushVerbatim verbatim = php_flushVerbatim_loop [] verbatim 0"

lemma php_match_pos: "php_match em input i m = Some (j, c) \<Longrightarrow> 0 < j"
  by (induction m) (auto split: option.splits)

function php_compress_loop ::
  "(byte list \<rightharpoonup> nat) \<Rightarrow> byte list \<Rightarrow> nat \<Rightarrow> byte list \<Rightarrow> byte list \<Rightarrow> byte list \<times> byte list" where
  "php_compress_loop em input i output verbatim =
     (if i < length input then
        let maxLen = min 7 (length input - i)
        in case php_match em input i maxLen of
             Some (j, c) \<Rightarrow>
               let output1 = (if length verbatim > 0 then output @ php_flushVerbatim verbatim
                              else output);
                   verbatim1 = (if length verbatim > 0 then [] else verbatim)
               in php_compress_loop em input (i + j) (output1 @ [of_nat c]) verbatim1
           | None \<Rightarrow>
               let verbatim1 = verbatim @ [input ! i]
               in if length verbatim1 = 255
                  then php_compress_loop em input (i + 1) (output @ php_flushVerbatim verbatim1) []
                  else php_compress_loop em input (i + 1) output verbatim1
      else (output, verbatim))"
  by pat_completeness auto
termination
  by (relation "measure (\<lambda>(em, input, i, output, verbatim). length input - i)")
     (auto dest: php_match_pos)

definition php_compress :: "byte list \<Rightarrow> byte list" where
  "php_compress input =
     (case php_compress_loop getEncodeMap input 0 [] [] of
        (output, verbatim) \<Rightarrow>
          if length verbatim > 0 then output @ php_flushVerbatim verbatim else output)"

text \<open>The decimal digits of a number, for the interpolated \<^verbatim>\<open>{$code}\<close>.\<close>

fun decimal :: "nat \<Rightarrow> string" where
  "decimal n =
     (if n < 10 then [char_of (48 + n)] else decimal (n div 10) @ [char_of (48 + n mod 10)])"

datatype php_exception = RuntimeException string

function php_decompress_loop ::
  "byte list list \<Rightarrow> byte list \<Rightarrow> nat \<Rightarrow> byte list \<Rightarrow> php_exception + byte list" where
  "php_decompress_loop dm input i output =
     (if i < length input then
        let code = unat (input ! i)
        in if code = 254 then
             if i + 1 \<ge> length input
             then Inl (RuntimeException ''Incomplete verbatim byte sequence'')
             else php_decompress_loop dm input (i + 2) (output @ [input ! (i + 1)])
           else if code = 255 then
             if i + 1 \<ge> length input
             then Inl (RuntimeException ''Incomplete verbatim string length'')
             else
               let len = unat (input ! (i + 1))
               in if i + 2 + len > length input
                  then Inl (RuntimeException ''Incomplete verbatim string data'')
                  else php_decompress_loop dm input (i + 2 + len)
                         (output @ take len (drop (i + 2) input))
           else
             if code \<ge> length dm
             then Inl (RuntimeException (''Invalid code: '' @ decimal code))
             else php_decompress_loop dm input (i + 1) (output @ dm ! code)
      else Inr output)"
  by pat_completeness auto
termination
  by (relation "measure (\<lambda>(dm, input, i, output). length input - i)") auto

definition php_decompress :: "byte list \<Rightarrow> php_exception + byte list" where
  "php_decompress input = php_decompress_loop php_decodeMap input 0 []"

section \<open>Notions used by the properties\<close>

text \<open>The key stored at a trie path: the code of the node reached, when it is terminal.\<close>

fun lookup :: "trieNode \<Rightarrow> byte list \<Rightarrow> byte option" where
  "lookup n [] = (if terminal n then Some (val n) else None)"
| "lookup n (c # k) = (case branches n c of None \<Rightarrow> None | Some m \<Rightarrow> lookup m k)"

text \<open>No codebook entry is a prefix of the byte sequence \<open>r\<close>.\<close>

definition no_match :: "byte list \<Rightarrow> bool" where
  "no_match r = (\<forall>s \<in> set codeStrings. \<not> prefix (bytes s) r)"

text \<open>No codebook entry matches at any position of \<open>S\<close>.\<close>

definition no_match_run :: "byte list \<Rightarrow> bool" where
  "no_match_run S = (\<forall>k < length S. no_match (drop k S))"


text \<open>
  The stream format: a token is a code byte below 254, or 254 and one literal byte, or
  255, a length byte \<open>L\<close> and exactly \<open>L\<close> literal bytes. \<open>token_stream\<close> holds of the
  sequences of complete tokens; \<open>incomplete_token\<close> of a token cut short.
\<close>

inductive token_stream :: "byte list \<Rightarrow> bool" where
  ts_Nil: "token_stream []"
| ts_code: "c \<noteq> 254 \<Longrightarrow> c \<noteq> 255 \<Longrightarrow> token_stream s \<Longrightarrow> token_stream (c # s)"
| ts_byte: "token_stream s \<Longrightarrow> token_stream (254 # b # s)"
| ts_string: "length d = unat L \<Longrightarrow> token_stream s \<Longrightarrow> token_stream (255 # L # d @ s)"

fun incomplete_token :: "byte list \<Rightarrow> bool" where
  "incomplete_token [] = False"
| "incomplete_token [c] = (c = 254 \<or> c = 255)"
| "incomplete_token (c # L # d) = (c = 255 \<and> length d < unat L)"

definition truncation_error :: "SmazError \<Rightarrow> bool" where
  "truncation_error e =
     (message e = ''incomplete verbatim byte sequence'' \<or>
      message e = ''incomplete verbatim string length'' \<or>
      message e = ''incomplete verbatim string data'')"

section \<open>Properties of the model\<close>

subsection \<open>Bytes of a string\<close>

lemma unat_of_char: "unat (of_char c :: byte) = of_char c"
proof -
  have "(of_char c :: byte) = of_nat (of_char c)" by (simp add: of_nat_of_char)
  then have "unat (of_char c :: byte) = (of_char c :: nat) mod 2 ^ LENGTH(8)"
    by (simp only: unat_of_nat)
  then show ?thesis by simp
qed

lemma inj_bytes: "inj bytes"
proof (rule injI)
  fix s t :: string
  assume "bytes s = bytes t"
  then have "map (unat :: byte \<Rightarrow> nat) (bytes s) = map unat (bytes t)" by simp
  then have "map (of_char :: char \<Rightarrow> nat) s = map of_char t"
    by (simp add: bytes_def unat_of_char o_def)
  then show "s = t"
    using inj_of_char[where 'a = nat] by (simp add: inj_map_eq_map[OF inj_of_char])
qed

lemma length_bytes [simp]: "length (bytes s) = length s"
  by (simp add: bytes_def)

subsection \<open>The trie\<close>

lemma lookup_emptyNode: "lookup emptyNode k = None"
  by (cases k) (simp_all add: emptyNode_def)

lemma lookup_put: "lookup (put n k v) k' = (if k' = k then Some v else lookup n k')"
proof (induction k arbitrary: n k')
  case Nil
  show ?case by (cases k') simp_all
next
  case (Cons c k)
  show ?case
  proof (cases k')
    case Nil
    then show ?thesis by (simp add: Let_def)
  next
    case (Cons c' k'')
    then show ?thesis
      using Cons.IH by (auto simp: Let_def lookup_emptyNode split: option.splits)
  qed
qed

lemma init_step_pair:
  "init_step (i, s) (dm, t) = (dm[i := s], put t (bytes s) (of_nat i))"
  by (simp add: init_step_def)

lemma fold_init_step_snd:
  "snd (fold init_step xs g) =
     fold (\<lambda>p n. case p of (i, s) \<Rightarrow> put n (bytes s) (of_nat i)) xs (snd g)"
proof (induction xs arbitrary: g)
  case Nil
  show ?case by simp
next
  case (Cons x xs)
  obtain i s where x: "x = (i, s)" by (cases x)
  obtain dm t where g: "g = (dm, t)" by (cases g)
  show ?case by (simp add: Cons.IH x g init_step_pair)
qed

lemma fold_init_step_fst:
  "length cs \<le> length dm \<Longrightarrow>
     fst (fold init_step (enumerate (length pre) cs) (pre @ dm, t)) = pre @ cs @ drop (length cs) dm"
proof (induction cs arbitrary: pre dm t)
  case Nil
  then show ?case by simp
next
  case (Cons c cs)
  then obtain d dm' where dm: "dm = d # dm'" by (cases dm) auto
  with Cons.prems have len: "length cs \<le> length dm'" by simp
  have "fst (fold init_step (enumerate (length (pre @ [c])) cs)
               ((pre @ [c]) @ dm', put t (bytes c) (of_nat (length pre))))
        = (pre @ [c]) @ cs @ drop (length cs) dm'"
    by (rule Cons.IH[OF len])
  then show ?case by (simp add: dm init_step_pair)
qed

lemma decodeMap_eq: "decodeMap = codeStrings"
  using fold_init_step_fst[of codeStrings "replicate (length codeStrings) []" "[]" emptyNode]
  by (simp add: decodeMap_def init_def)

lemma lookup_fold_put:
  "lookup (fold (\<lambda>p n. case p of (i, s) \<Rightarrow> put n (bytes s) (of_nat i)) xs t) k =
     (case map_of (rev (map (\<lambda>p. case p of (i, s) \<Rightarrow> (bytes s, of_nat i :: byte)) xs)) k of
        None \<Rightarrow> lookup t k
      | Some v \<Rightarrow> Some v)"
proof (induction xs arbitrary: t)
  case Nil
  show ?case by simp
next
  case (Cons x xs)
  obtain i s where x: "x = (i, s)" by (cases x)
  show ?case
    by (simp add: Cons.IH x lookup_put map_add_def split: option.splits)
qed

lemma lookup_codeTrie:
  "lookup codeTrie k =
     map_of (rev (map (\<lambda>p. case p of (i, s) \<Rightarrow> (bytes s, of_nat i :: byte))
                      (enumerate 0 codeStrings))) k"
  by (simp add: codeTrie_def init_def fold_init_step_snd lookup_fold_put lookup_emptyNode
      split: option.splits)

subsection \<open>Facts read off the codebook\<close>

lemma codeStrings_length: "length codeStrings = 254"
  by (simp add: codeStrings_def)

lemma codeStrings_sizes_all: "list_all (\<lambda>s. 1 \<le> length s \<and> length s \<le> 7) codeStrings"
  by (simp add: codeStrings_def)

lemma codeStrings_sizes: "s \<in> set codeStrings \<Longrightarrow> 1 \<le> length s \<and> length s \<le> 7"
  using codeStrings_sizes_all by (simp add: list_all_iff)

lemma codeStrings_distinct: "distinct codeStrings"
  unfolding codeStrings_def
  by (simp only: distinct.simps list.set insert_iff empty_iff list.inject list.distinct
      char.inject simp_thms append.simps)

lemma alist_keys:
  "map fst (map (\<lambda>p. case p of (i, s) \<Rightarrow> (bytes s, of_nat i :: byte)) (enumerate n cs)) = map bytes cs"
  by (induction cs arbitrary: n) simp_all

lemma lookup_codeTrie_iff:
  "lookup codeTrie k = Some v \<longleftrightarrow>
     (\<exists>j < length codeStrings. k = bytes (codeStrings ! j) \<and> v = of_nat j)"
proof -
  let ?al = "map (\<lambda>p. case p of (i, s) \<Rightarrow> (bytes s, of_nat i :: byte)) (enumerate 0 codeStrings)"
  have d: "distinct (map fst (rev ?al))"
    unfolding rev_map[symmetric] alist_keys distinct_rev
    using codeStrings_distinct inj_bytes by (simp add: distinct_map inj_on_def inj_def)
  have "lookup codeTrie k = Some v \<longleftrightarrow> (k, v) \<in> set ?al"
    using map_of_eq_Some_iff[OF d] by (simp add: lookup_codeTrie)
  also have "\<dots> \<longleftrightarrow> (\<exists>j < length codeStrings. k = bytes (codeStrings ! j) \<and> v = of_nat j)"
    by (auto simp: in_set_enumerate_eq image_iff Bex_def) 
  finally show ?thesis .
qed

subsection \<open>What findLongestPrefix returns\<close>

lemma flp_loop_spec:
  "findLongestPrefix_loop n cs i lm lc = (lm', lc') \<Longrightarrow>
     (lm' = lm \<and> lc' = lc \<and> (\<forall>p. p \<noteq> [] \<and> prefix p cs \<longrightarrow> lookup n p = None)) \<or>
     (\<exists>p. p \<noteq> [] \<and> prefix p cs \<and> lm' = i + length p \<and> lookup n p = Some lc' \<and>
          (\<forall>q. prefix q cs \<and> length p < length q \<longrightarrow> lookup n q = None))"
proof (induction cs arbitrary: n i lm lc)
  case Nil
  then show ?case by simp
next
  case (Cons c cs)
  show ?case
  proof (cases "branches n c")
    case None
    then have "\<forall>p. p \<noteq> [] \<and> prefix p (c # cs) \<longrightarrow> lookup n p = None"
      by (auto simp: prefix_Cons)
    with Cons.prems None show ?thesis by simp
  next
    case (Some m)
    have lk: "\<And>p. lookup n (c # p) = lookup m p" using Some by simp
    have found: ?thesis
      if p: "p \<noteq> []" "prefix p cs" "lm' = i + 1 + length p" "lookup m p = Some lc'"
        "\<forall>q. prefix q cs \<and> length p < length q \<longrightarrow> lookup m q = None" for p
    proof -
      have "c # p \<noteq> [] \<and> prefix (c # p) (c # cs) \<and> lm' = i + length (c # p) \<and>
          lookup n (c # p) = Some lc' \<and>
          (\<forall>q. prefix q (c # cs) \<and> length (c # p) < length q \<longrightarrow> lookup n q = None)"
        using p lk by (auto simp: prefix_Cons)
      then show ?thesis by blast
    qed
    show ?thesis
    proof (cases "terminal m")
      case True
      with Cons.prems Some
      have "findLongestPrefix_loop m cs (i + 1) (i + 1) (val m) = (lm', lc')" by simp
      from Cons.IH[OF this] show ?thesis
      proof
        assume a: "lm' = i + 1 \<and> lc' = val m \<and>
          (\<forall>p. p \<noteq> [] \<and> prefix p cs \<longrightarrow> lookup m p = None)"
        have "[c] \<noteq> [] \<and> prefix [c] (c # cs) \<and> lm' = i + length [c] \<and>
          lookup n [c] = Some lc' \<and>
          (\<forall>q. prefix q (c # cs) \<and> length [c] < length q \<longrightarrow> lookup n q = None)"
          using a True lk by (auto simp: prefix_Cons)
        then show ?thesis by blast
      next
        assume "\<exists>p. p \<noteq> [] \<and> prefix p cs \<and> lm' = i + 1 + length p \<and> lookup m p = Some lc' \<and>
          (\<forall>q. prefix q cs \<and> length p < length q \<longrightarrow> lookup m q = None)"
        then show ?thesis using found by blast
      qed
    next
      case False
      with Cons.prems Some
      have "findLongestPrefix_loop m cs (i + 1) lm lc = (lm', lc')" by simp
      from Cons.IH[OF this] show ?thesis
      proof
        assume a: "lm' = lm \<and> lc' = lc \<and>
          (\<forall>p. p \<noteq> [] \<and> prefix p cs \<longrightarrow> lookup m p = None)"
        have "\<forall>p. p \<noteq> [] \<and> prefix p (c # cs) \<longrightarrow> lookup n p = None"
        proof (intro allI impI)
          fix p assume "p \<noteq> [] \<and> prefix p (c # cs)"
          then obtain p' where "p = c # p'" "prefix p' cs" by (auto simp: prefix_Cons)
          then show "lookup n p = None" using a False lk by (cases p') auto
        qed
        with a show ?thesis by blast
      next
        assume "\<exists>p. p \<noteq> [] \<and> prefix p cs \<and> lm' = i + 1 + length p \<and> lookup m p = Some lc' \<and>
          (\<forall>q. prefix q cs \<and> length p < length q \<longrightarrow> lookup m q = None)"
        then show ?thesis using found by blast
      qed
    qed
  qed
qed

lemma flp_spec:
  "findLongestPrefix n q = (m, c) \<Longrightarrow>
     (m = 0 \<and> (\<forall>p. p \<noteq> [] \<and> prefix p q \<longrightarrow> lookup n p = None)) \<or>
     (\<exists>p. p \<noteq> [] \<and> prefix p q \<and> m = length p \<and> lookup n p = Some c \<and>
          (\<forall>p'. prefix p' q \<and> length p < length p' \<longrightarrow> lookup n p' = None))"
  unfolding findLongestPrefix_def by (drule flp_loop_spec) auto

lemma entry_prefix_take7:
  assumes "s \<in> set codeStrings"
  shows "prefix (bytes s) (take 7 r) \<longleftrightarrow> prefix (bytes s) r"
proof
  assume "prefix (bytes s) (take 7 r)"
  then show "prefix (bytes s) r" using take_is_prefix prefix_order.order_trans by blast
next
  assume p: "prefix (bytes s) r"
  have "length (bytes s) \<le> 7" using codeStrings_sizes[OF assms] by simp
  with p show "prefix (bytes s) (take 7 r)"
    by (auto simp: prefix_def min_def)
qed

lemma flp_no_match:
  assumes "no_match r"
  shows "fst (findLongestPrefix codeTrie (take 7 r)) = 0"
proof -
  obtain m c where mc: "findLongestPrefix codeTrie (take 7 r) = (m, c)" by (cases "findLongestPrefix codeTrie (take 7 r)")
  have "m = 0"
  proof (rule ccontr)
    assume "m \<noteq> 0"
    with flp_spec[OF mc] obtain p where p: "prefix p (take 7 r)" "lookup codeTrie p = Some c"
      by blast
    then obtain j where j: "j < length codeStrings" "p = bytes (codeStrings ! j)"
      by (auto simp: lookup_codeTrie_iff)
    then have "codeStrings ! j \<in> set codeStrings" by simp
    with p j assms show False
      by (auto simp: no_match_def entry_prefix_take7)
  qed
  with mc show ?thesis by simp
qed

lemma flp_sound:
  assumes "findLongestPrefix codeTrie q = (m, c)" "0 < m"
  shows "\<exists>j < length codeStrings. c = of_nat j \<and> m = length (codeStrings ! j) \<and>
           take m q = bytes (codeStrings ! j) \<and> m \<le> length q"
proof -
  from flp_spec[OF assms(1)] assms(2)
  obtain p where p: "prefix p q" "m = length p" "lookup codeTrie p = Some c" by auto
  then obtain j where j: "j < length codeStrings" "p = bytes (codeStrings ! j)" "c = of_nat j"
    by (auto simp: lookup_codeTrie_iff)
  from p(1,2) have "take m q = p" "m \<le> length q" by (auto simp: prefix_def)
  with j p show ?thesis by auto
qed


declare flushVerbatim_loop.simps [simp del]
declare Compress_loop.simps [simp del]
declare Decompress_loop.simps [simp del]
declare php_flushVerbatim_loop.simps [simp del]
declare php_compress_loop.simps [simp del]
declare php_decompress_loop.simps [simp del]
declare decimal.simps [simp del]

subsection \<open>One step of the loops\<close>

lemma Compress_loop_end:
  "length input \<le> i \<Longrightarrow> Compress_loop t input i output verbatim = (output, verbatim)"
  by (subst Compress_loop.simps) simp

lemma Decompress_loop_end:
  "length input \<le> i \<Longrightarrow> Decompress_loop dm input i output = Inr output"
  by (subst Decompress_loop.simps) simp

lemma take_maxLen:
  "take (if length input - i < 7 then length input - i else 7) (drop i input) = take 7 (drop i input)"
  by simp

lemma Compress_loop_match:
  assumes "i < length input" "findLongestPrefix t (take 7 (drop i input)) = (m, c)" "0 < m"
  shows "Compress_loop t input i out verb =
           Compress_loop t input (i + m)
             ((if verb = [] then out else flushVerbatim out verb) @ [c]) []"
  using assms by (subst Compress_loop.simps) (simp add: take_maxLen Let_def)

lemma Compress_loop_no_match:
  assumes "i < length input" "fst (findLongestPrefix t (take 7 (drop i input))) = 0"
  shows "Compress_loop t input i out verb =
           (if length verb = 254
            then Compress_loop t input (i + 1) (flushVerbatim out (verb @ [input ! i])) []
            else Compress_loop t input (i + 1) out (verb @ [input ! i]))"
  using assms by (subst Compress_loop.simps) (simp add: take_maxLen Let_def)

lemma flushVerbatim_loop_end:
  "length verbatim \<le> pos \<Longrightarrow> flushVerbatim_loop out verbatim pos = out"
  by (subst flushVerbatim_loop.simps) simp

lemma flushVerbatim_small:
  assumes "0 < length v" "length v \<le> 255"
  shows "flushVerbatim out v =
           out @ (if length v = 1 then [254] else [255, of_nat (length v)]) @ v"
  using assms unfolding flushVerbatim_def
  by (subst flushVerbatim_loop.simps)
     (auto simp: Let_def flushVerbatim_loop_end verbatimByte_def verbatimString_def)

subsection \<open>The decoder, token by token\<close>

lemma Decompress_loop_step:
  "i < length input \<Longrightarrow>
   Decompress_loop dm input i out =
     (if input ! i = 254 then
        if length input \<le> i + 1 then Inl (SmazError ''incomplete verbatim byte sequence'')
        else Decompress_loop dm input (i + 2) (out @ [input ! (i + 1)])
      else if input ! i = 255 then
        if length input \<le> i + 1 then Inl (SmazError ''incomplete verbatim string length'')
        else if length input < i + 2 + unat (input ! (i + 1))
        then Inl (SmazError ''incomplete verbatim string data'')
        else Decompress_loop dm input (i + 2 + unat (input ! (i + 1)))
               (out @ take (unat (input ! (i + 1))) (drop (i + 2) input))
      else if length dm \<le> unat (input ! i) then Inl (SmazError ''invalid code'')
      else Decompress_loop dm input (i + 1) (out @ bytes (dm ! unat (input ! i))))"
  by (subst Decompress_loop.simps) (simp add: Let_def verbatimByte_def verbatimString_def)

lemma Decompress_loop_acc:
  "Decompress_loop dm input i out =
     (case Decompress_loop dm input i [] of Inl e \<Rightarrow> Inl e | Inr r \<Rightarrow> Inr (out @ r))"
proof (induction "length input - i" arbitrary: i out rule: less_induct)
  case less
  note IH = less.hyps
  show ?case
  proof (cases "i < length input")
    case False
    then show ?thesis by (simp add: Decompress_loop_end)
  next
    case True
    have step: "Decompress_loop dm input i' (out @ x) =
          (case Decompress_loop dm input i' x of Inl e \<Rightarrow> Inl e | Inr r \<Rightarrow> Inr (out @ r))"
      if "i < i'" for i' x
    proof -
      from that have m: "length input - i' < length input - i" using True by simp
      show ?thesis
        using IH[OF m, of "out @ x"] IH[OF m, of x] by (simp split: sum.splits)
    qed
    show ?thesis
      unfolding Decompress_loop_step[OF True, of dm out] Decompress_loop_step[OF True, of dm "[]"]
      by (simp add: step)
  qed
qed

lemma Decompress_loop_shift:
  "Decompress_loop dm (p @ input) (length p + i) out = Decompress_loop dm input i out"
proof (induction "length input - i" arbitrary: i out rule: less_induct)
  case less
  note IH = less.hyps
  show ?case
  proof (cases "i < length input")
    case False
    then show ?thesis by (simp add: Decompress_loop_end)
  next
    case True
    then have True': "length p + i < length (p @ input)" by simp
    have step: "Decompress_loop dm (p @ input) (length p + i + k) x =
                Decompress_loop dm input (i + k) x" if "0 < k" for k x
    proof -
      from that have m: "length input - (i + k) < length input - i" using True by simp
      show ?thesis using IH[OF m, of x] by (simp add: add.assoc)
    qed
    show ?thesis
      unfolding Decompress_loop_step[OF True', of dm out] Decompress_loop_step[OF True, of dm out]
      using step[of 1] step[of 2] step[of "2 + unat (input ! (i + 1))"]
      by (simp add: nth_append)
  qed
qed

subsection \<open>Decoding a stream from its first token\<close>

lemma byte_lt_254: "c \<noteq> 254 \<Longrightarrow> c \<noteq> 255 \<Longrightarrow> unat (c :: byte) < 254"
proof -
  assume a: "c \<noteq> 254" "c \<noteq> 255"
  have "unat c < 256" using unsigned_less[of c] by simp
  moreover have "unat c \<noteq> 254" using a(1) word_unat_eq_iff[of c 254] by simp
  moreover have "unat c \<noteq> 255" using a(2) word_unat_eq_iff[of c 255] by simp
  ultimately show ?thesis by arith
qed

lemma dec_Nil: "Decompress_loop dm [] 0 [] = Inr []"
  by (simp add: Decompress_loop_end)

lemma dec_tail:
  "Decompress_loop dm (p @ s) (length p) out =
     (case Decompress_loop dm s 0 [] of Inl e \<Rightarrow> Inl e | Inr r \<Rightarrow> Inr (out @ r))"
  using Decompress_loop_shift[of dm p s 0 out] Decompress_loop_acc[of dm s 0 out] by simp

lemma dec_code:
  "c \<noteq> 254 \<Longrightarrow> c \<noteq> 255 \<Longrightarrow>
   Decompress_loop dm (c # s) 0 [] =
     (if length dm \<le> unat c then Inl (SmazError ''invalid code'')
      else case Decompress_loop dm s 0 [] of
             Inl e \<Rightarrow> Inl e | Inr r \<Rightarrow> Inr (bytes (dm ! unat c) @ r))"
  using Decompress_loop_step[of 0 "c # s" dm "[]"]
    dec_tail[of dm "[c]" s "bytes (dm ! unat c)"] by simp

lemma dec_byte:
  "Decompress_loop dm (254 # b # s) 0 [] =
     (case Decompress_loop dm s 0 [] of Inl e \<Rightarrow> Inl e | Inr r \<Rightarrow> Inr (b # r))"
  using Decompress_loop_step[of 0 "254 # b # s" dm "[]"] dec_tail[of dm "[254, b]" s "[b]"]
  by (simp split: sum.splits)

lemma dec_byte_trunc:
  "Decompress_loop dm [254] 0 [] = Inl (SmazError ''incomplete verbatim byte sequence'')"
  using Decompress_loop_step[of 0 "[254]" dm "[]"] by simp

lemma dec_len_trunc:
  "Decompress_loop dm [255] 0 [] = Inl (SmazError ''incomplete verbatim string length'')"
  using Decompress_loop_step[of 0 "[255]" dm "[]"] by simp

lemma dec_string:
  "length d = unat L \<Longrightarrow>
   Decompress_loop dm (255 # L # d @ s) 0 [] =
     (case Decompress_loop dm s 0 [] of Inl e \<Rightarrow> Inl e | Inr r \<Rightarrow> Inr (d @ r))"
  using Decompress_loop_step[of 0 "255 # L # d @ s" dm "[]"] dec_tail[of dm "255 # L # d" s d]
  by simp

lemma dec_string_trunc:
  "length d < unat L \<Longrightarrow>
   Decompress_loop dm (255 # L # d) 0 [] = Inl (SmazError ''incomplete verbatim string data'')"
  using Decompress_loop_step[of 0 "255 # L # d" dm "[]"] by simp

lemma token_cases [case_names Nil code byte byte_trunc len_trunc string string_trunc]:
  fixes s :: "byte list"
  obtains "s = []"
  | c s' where "s = c # s'" "c \<noteq> 254" "c \<noteq> 255"
  | b s' where "s = 254 # b # s'"
  | "s = [254]"
  | "s = [255]"
  | L d s' where "s = 255 # L # d @ s'" "length d = unat L"
  | L d where "s = 255 # L # d" "length d < unat L"
proof (cases s)
  case Nil
  then show ?thesis using that(1) by simp
next
  case (Cons c s1)
  show ?thesis
  proof (cases "c = 254")
    case True
    then show ?thesis using Cons that(3,4) by (cases s1) auto
  next
    case c254: False
    show ?thesis
    proof (cases "c = 255")
      case False
      then show ?thesis using Cons c254 that(2) by simp
    next
      case True
      show ?thesis
      proof (cases s1)
        case Nil
        then show ?thesis using Cons True that(5) by simp
      next
        case (Cons L s2)
        show ?thesis
        proof (cases "length s2 < unat L")
          case True
          then show ?thesis using \<open>s = c # s1\<close> \<open>c = 255\<close> Cons that(7) by simp
        next
          case False
          then have "s2 = take (unat L) s2 @ drop (unat L) s2" "length (take (unat L) s2) = unat L"
            by simp_all
          then show ?thesis using \<open>s = c # s1\<close> \<open>c = 255\<close> Cons that(6) by metis
        qed
      qed
    qed
  qed
qed

lemma dec_append:
  "Decompress_loop dm a 0 [] = Inr ra \<Longrightarrow>
   Decompress_loop dm (a @ b) 0 [] =
     (case Decompress_loop dm b 0 [] of Inl e \<Rightarrow> Inl e | Inr rb \<Rightarrow> Inr (ra @ rb))"
proof (induction "length a" arbitrary: a ra rule: less_induct)
  case less
  show ?case
  proof (cases a rule: token_cases)
    case Nil
    with less.prems show ?thesis by (simp add: dec_Nil split: sum.splits)
  next
    case (code c s')
    with less.prems obtain r' where r': "Decompress_loop dm s' 0 [] = Inr r'"
      "ra = bytes (dm ! unat c) @ r'" "\<not> length dm \<le> unat c"
      by (auto simp: dec_code split: if_splits sum.splits)
    have "length s' < length a" using code by simp
    from less.hyps[OF this r'(1)] r' code show ?thesis
      by (simp add: dec_code split: sum.splits)
  next
    case (byte b' s')
    with less.prems obtain r' where r': "Decompress_loop dm s' 0 [] = Inr r'" "ra = b' # r'"
      by (auto simp: dec_byte split: sum.splits)
    have "length s' < length a" using byte by simp
    from less.hyps[OF this r'(1)] r' byte show ?thesis
      by (simp add: dec_byte split: sum.splits)
  next
    case byte_trunc
    with less.prems show ?thesis by (simp add: dec_byte_trunc)
  next
    case len_trunc
    with less.prems show ?thesis by (simp add: dec_len_trunc)
  next
    case (string L d s')
    with less.prems obtain r' where r': "Decompress_loop dm s' 0 [] = Inr r'" "ra = d @ r'"
      by (auto simp: dec_string split: sum.splits)
    have "length s' < length a" using string by simp
    from less.hyps[OF this r'(1)] r' string show ?thesis
      by (simp add: dec_string split: sum.splits)
  next
    case (string_trunc L d)
    with less.prems show ?thesis by (simp add: dec_string_trunc)
  qed
qed

lemma token_stream_dec:
  "token_stream s \<Longrightarrow> 254 \<le> length dm \<Longrightarrow> \<exists>r. Decompress_loop dm s 0 [] = Inr r"
proof (induction rule: token_stream.induct)
  case ts_Nil
  show ?case by (simp add: dec_Nil)
next
  case (ts_code c s)
  then show ?case using byte_lt_254[of c] by (auto simp: dec_code)
next
  case (ts_byte s b)
  then show ?case by (auto simp: dec_byte)
next
  case (ts_string d L s)
  then show ?case by (auto simp: dec_string)
qed

lemma dec_token_stream:
  "Decompress_loop dm s 0 [] = Inr r \<Longrightarrow> token_stream s"
proof (induction "length s" arbitrary: s r rule: less_induct)
  case less
  show ?case
  proof (cases s rule: token_cases)
    case Nil
    then show ?thesis by (simp add: ts_Nil)
  next
    case (code c s')
    with less.prems obtain r' where "Decompress_loop dm s' 0 [] = Inr r'"
      by (auto simp: dec_code split: if_splits sum.splits)
    with less.hyps[of s'] code show ?thesis by (auto intro: ts_code)
  next
    case (byte b' s')
    with less.prems obtain r' where "Decompress_loop dm s' 0 [] = Inr r'"
      by (auto simp: dec_byte split: sum.splits)
    with less.hyps[of s'] byte show ?thesis by (auto intro: ts_byte)
  next
    case byte_trunc
    with less.prems show ?thesis by (simp add: dec_byte_trunc)
  next
    case len_trunc
    with less.prems show ?thesis by (simp add: dec_len_trunc)
  next
    case (string L d s')
    with less.prems obtain r' where "Decompress_loop dm s' 0 [] = Inr r'"
      by (auto simp: dec_string split: sum.splits)
    with less.hyps[of s'] string show ?thesis by (auto intro: ts_string)
  next
    case (string_trunc L d)
    with less.prems show ?thesis by (simp add: dec_string_trunc)
  qed
qed

lemma dec_incomplete:
  "incomplete_token t \<Longrightarrow> \<exists>e. Decompress_loop dm t 0 [] = Inl e \<and> truncation_error e"
proof (induction t rule: incomplete_token.induct)
  case 1
  then show ?case by simp
next
  case (2 c)
  then show ?case
    by (auto simp: dec_byte_trunc dec_len_trunc truncation_error_def)
next
  case (3 c L d)
  then show ?case by (auto simp: dec_string_trunc truncation_error_def)
qed

lemma dec_failure:
  "254 \<le> length dm \<Longrightarrow> Decompress_loop dm s 0 [] = Inl e \<Longrightarrow>
     truncation_error e \<and> (\<exists>p t. s = p @ t \<and> token_stream p \<and> incomplete_token t)"
proof (induction "length s" arbitrary: s rule: less_induct)
  case less
  note big = less.prems(1)
  have base: "truncation_error e \<and> (\<exists>p t. s = p @ t \<and> token_stream p \<and> incomplete_token t)"
    if "incomplete_token s"
  proof -
    from dec_incomplete[OF that, of dm] less.prems(2) have "truncation_error e" by auto
    moreover have "s = [] @ s \<and> token_stream [] \<and> incomplete_token s"
      using that by (simp add: ts_Nil)
    ultimately show ?thesis by blast
  qed
  show ?case
  proof (cases s rule: token_cases)
    case Nil
    with less.prems show ?thesis by (simp add: dec_Nil)
  next
    case (code c s')
    with less.prems byte_lt_254[of c] have "Decompress_loop dm s' 0 [] = Inl e"
      by (auto simp: dec_code split: if_splits sum.splits)
    with less.hyps[of s', OF _ big] code
    obtain p t where "truncation_error e" "s' = p @ t" "token_stream p" "incomplete_token t"
      by auto
    then have "truncation_error e \<and> s = (c # p) @ t \<and> token_stream (c # p) \<and> incomplete_token t"
      using code by (auto intro: ts_code)
    then show ?thesis by blast
  next
    case (byte b' s')
    with less.prems have "Decompress_loop dm s' 0 [] = Inl e"
      by (auto simp: dec_byte split: sum.splits)
    with less.hyps[of s', OF _ big] byte
    obtain p t where "truncation_error e" "s' = p @ t" "token_stream p" "incomplete_token t"
      by auto
    then have "truncation_error e \<and> s = (254 # b' # p) @ t \<and> token_stream (254 # b' # p) \<and>
        incomplete_token t"
      using byte by (auto intro: ts_byte)
    then show ?thesis by blast
  next
    case byte_trunc
    then show ?thesis using base by simp
  next
    case len_trunc
    then show ?thesis using base by simp
  next
    case (string L d s')
    with less.prems have "Decompress_loop dm s' 0 [] = Inl e"
      by (auto simp: dec_string split: sum.splits)
    with less.hyps[of s', OF _ big] string
    obtain p t where "truncation_error e" "s' = p @ t" "token_stream p" "incomplete_token t"
      by auto
    then have "truncation_error e \<and> s = (255 # L # d @ p) @ t \<and>
        token_stream (255 # L # d @ p) \<and> incomplete_token t"
      using string by (auto intro: ts_string)
    then show ?thesis by blast
  next
    case (string_trunc L d)
    then show ?thesis using base by simp
  qed
qed

subsection \<open>Frames written by flushVerbatim\<close>

lemma dec_frame:
  assumes "0 < length v" "length v \<le> 255"
  shows "Decompress_loop dm ((if length v = 1 then [254] else [255, of_nat (length v)]) @ v) 0 []
           = Inr v"
proof (cases "length v = 1")
  case True
  then obtain b where "v = [b]" by (cases v) auto
  then show ?thesis by (simp add: dec_byte dec_Nil)
next
  case False
  have "unat (of_nat (length v) :: byte) = length v"
    using assms(2) by (simp add: unat_of_nat)
  then show ?thesis
    using False dec_string[of v "of_nat (length v)" dm "[]"] by (simp add: dec_Nil)
qed

lemma dec_flush:
  assumes "Decompress_loop dm out 0 [] = Inr pre" "0 < length v" "length v \<le> 255"
  shows "Decompress_loop dm (flushVerbatim out v) 0 [] = Inr (pre @ v)"
  using dec_append[OF assms(1), of "(if length v = 1 then [254] else [255, of_nat (length v)]) @ v"]
    dec_frame[OF assms(2,3), of dm]
  by (simp only: flushVerbatim_small[OF assms(2,3)] sum.case)

lemma dec_single_code:
  assumes "j < length codeStrings"
  shows "Decompress_loop decodeMap [of_nat j] 0 [] = Inr (bytes (codeStrings ! j))"
proof -
  have u: "unat (of_nat j :: byte) = j"
    using assms by (simp add: unat_of_nat codeStrings_length)
  then have "(of_nat j :: byte) \<noteq> 254" "(of_nat j :: byte) \<noteq> 255"
    using assms by (auto simp: codeStrings_length)
  then show ?thesis
    using assms u by (simp add: dec_code dec_Nil decodeMap_eq)
qed

subsection \<open>The encoder loop keeps the decoded output equal to the input read\<close>

lemma Compress_loop_roundtrip:
  "Compress_loop codeTrie input i out verb = (out', verb') \<Longrightarrow>
   i \<le> length input \<Longrightarrow> length verb < 255 \<Longrightarrow>
   Decompress_loop decodeMap out 0 [] = Inr pre \<Longrightarrow> pre @ verb = take i input \<Longrightarrow>
   \<exists>pre'. Decompress_loop decodeMap out' 0 [] = Inr pre' \<and> pre' @ verb' = input \<and>
          length verb' < 255"
proof (induction "length input - i" arbitrary: i out verb pre rule: less_induct)
  case less
  note run = less.prems(1) and bound = less.prems(2) and small = less.prems(3)
    and dec = less.prems(4) and inv = less.prems(5)
  show ?case
  proof (cases "i < length input")
    case False
    with bound have "i = length input" by simp
    with run inv dec small show ?thesis by (simp add: Compress_loop_end)
  next
    case True
    obtain m c where mc: "findLongestPrefix codeTrie (take 7 (drop i input)) = (m, c)"
      by (cases "findLongestPrefix codeTrie (take 7 (drop i input))")
    show ?thesis
    proof (cases "0 < m")
      case mpos: True
      from flp_sound[OF mc mpos] obtain j where j: "j < length codeStrings" "c = of_nat j"
        "m = length (codeStrings ! j)" "take m (take 7 (drop i input)) = bytes (codeStrings ! j)"
        "m \<le> length (take 7 (drop i input))" by blast
      from j(5) True have m7: "m \<le> 7" and mlen: "i + m \<le> length input" by auto
      let ?out1 = "if verb = [] then out else flushVerbatim out verb"
      have d1: "Decompress_loop decodeMap ?out1 0 [] = Inr (pre @ verb)"
        using dec small by (auto simp: dec_flush)
      have entry: "bytes (codeStrings ! j) = take m (drop i input)"
        using j(4) m7 by (simp add: min_def)
      have d2: "Decompress_loop decodeMap (?out1 @ [c]) 0 [] = Inr ((pre @ verb) @ take m (drop i input))"
        using dec_append[OF d1, of "[c]"] dec_single_code[OF j(1)] j(2) entry by simp
      have inv': "((pre @ verb) @ take m (drop i input)) @ [] = take (i + m) input"
        using inv by (simp add: take_add)
      have run': "Compress_loop codeTrie input (i + m) (?out1 @ [c]) [] = (out', verb')"
        using run Compress_loop_match[OF True mc mpos, of out verb] by simp
      have "length input - (i + m) < length input - i" using True mpos by simp
      from less.hyps[OF this run' mlen _ d2 inv'] show ?thesis by simp
    next
      case False
      then have m0: "fst (findLongestPrefix codeTrie (take 7 (drop i input))) = 0"
        using mc by simp
      have meas: "length input - (i + 1) < length input - i" using True by simp
      have bound': "i + 1 \<le> length input" using True by simp
      have tk: "take (i + 1) input = take i input @ [input ! i]"
        using True by (simp add: take_Suc_conv_app_nth)
      show ?thesis
      proof (cases "length verb = 254")
        case full: True
        have run': "Compress_loop codeTrie input (i + 1) (flushVerbatim out (verb @ [input ! i])) []
                     = (out', verb')"
          using run Compress_loop_no_match[OF True m0, of out verb] full by simp
        have d': "Decompress_loop decodeMap (flushVerbatim out (verb @ [input ! i])) 0 []
                    = Inr (pre @ verb @ [input ! i])"
          using dec_flush[OF dec, of "verb @ [input ! i]"] full by simp
        have inv': "(pre @ verb @ [input ! i]) @ [] = take (i + 1) input"
          using inv tk by simp
        from less.hyps[OF meas run' bound' _ d' inv'] show ?thesis by simp
      next
        case notfull: False
        have run': "Compress_loop codeTrie input (i + 1) out (verb @ [input ! i]) = (out', verb')"
          using run Compress_loop_no_match[OF True m0, of out verb] notfull by simp
        have small': "length (verb @ [input ! i]) < 255" using small notfull by simp
        have inv': "pre @ (verb @ [input ! i]) = take (i + 1) input"
          using inv tk by simp
        from less.hyps[OF meas run' bound' small' dec inv'] show ?thesis .
      qed
    qed
  qed
qed

lemma Compress_Some:
  "Compress (Some S) =
     Inr (case Compress_loop codeTrie S 0 [] [] of
            (output, verbatim) \<Rightarrow>
              if verbatim = [] then output else flushVerbatim output verbatim)"
  by (simp add: Compress_def split: prod.splits)

lemma Decompress_Some: "Decompress (Some z) = Decompress_loop decodeMap z 0 []"
  by (simp add: Decompress_def)

lemma roundtrip_lemma:
  "\<exists>z. Compress (Some S) = Inr z \<and> Decompress (Some z) = Inr S"
proof -
  obtain out' verb' where run: "Compress_loop codeTrie S 0 [] [] = (out', verb')"
    by (cases "Compress_loop codeTrie S 0 [] []")
  from Compress_loop_roundtrip[OF run, of "[]"]
  obtain pre' where p: "Decompress_loop decodeMap out' 0 [] = Inr pre'" "pre' @ verb' = S"
    "length verb' < 255" by (auto simp: dec_Nil)
  show ?thesis
  proof (cases "verb' = []")
    case True
    with run p show ?thesis by (simp add: Compress_Some Decompress_Some)
  next
    case False
    with p dec_flush[OF p(1), of verb'] run show ?thesis
      by (simp add: Compress_Some Decompress_Some)
  qed
qed

subsection \<open>Runs of unmatched bytes\<close>

lemma Compress_loop_run:
  "(\<forall>k. i \<le> k \<and> k < length input \<longrightarrow> no_match (drop k input)) \<Longrightarrow>
   length verb + (length input - i) < 255 \<Longrightarrow>
   Compress_loop codeTrie input i out verb = (out, verb @ drop i input)"
proof (induction "length input - i" arbitrary: i verb rule: less_induct)
  case less
  show ?case
  proof (cases "i < length input")
    case False
    then show ?thesis by (simp add: Compress_loop_end)
  next
    case True
    have nm: "no_match (drop i input)" using less.prems(1) True by simp
    have full: "length verb \<noteq> 254" using less.prems(2) True by simp
    have meas: "length input - (i + 1) < length input - i" using True by simp
    have rest: "\<forall>k. i + 1 \<le> k \<and> k < length input \<longrightarrow> no_match (drop k input)"
      using less.prems(1) by simp
    have small: "length (verb @ [input ! i]) + (length input - (i + 1)) < 255"
      using less.prems(2) True by simp
    have "Compress_loop codeTrie input i out verb =
            Compress_loop codeTrie input (i + 1) out (verb @ [input ! i])"
      using Compress_loop_no_match[OF True flp_no_match[OF nm], of out verb] full by simp
    also have "\<dots> = (out, (verb @ [input ! i]) @ drop (i + 1) input)"
      by (rule less.hyps[OF meas rest small])
    also have "(verb @ [input ! i]) @ drop (i + 1) input = verb @ drop i input"
      using True by (simp add: Cons_nth_drop_Suc)
    finally show ?thesis .
  qed
qed

lemma Compress_loop_fill:
  "n = 255 - length verb \<Longrightarrow> length verb < 255 \<Longrightarrow> i + n \<le> length input \<Longrightarrow>
   (\<forall>k. i \<le> k \<and> k < i + n \<longrightarrow> no_match (drop k input)) \<Longrightarrow>
   Compress_loop codeTrie input i out verb =
     Compress_loop codeTrie input (i + n) (flushVerbatim out (verb @ take n (drop i input))) []"
proof (induction n arbitrary: i verb)
  case 0
  then show ?case by simp
next
  case (Suc n)
  have True: "i < length input" using Suc.prems(3) by simp
  have nm: "no_match (drop i input)" using Suc.prems(4) by simp
  have tk: "take (Suc n) (drop i input) = input ! i # take n (drop (i + 1) input)"
    using True by (simp add: Cons_nth_drop_Suc[symmetric])
  show ?case
  proof (cases "length verb = 254")
    case full: True
    then have "n = 0" using Suc.prems(1) by simp
    then show ?thesis
      using Compress_loop_no_match[OF True flp_no_match[OF nm], of out verb] full tk by simp
  next
    case False
    have n: "n = 255 - length (verb @ [input ! i])" using Suc.prems(1) by simp
    have small: "length (verb @ [input ! i]) < 255" using Suc.prems(2) False by simp
    have bound: "i + 1 + n \<le> length input" using Suc.prems(3) by simp
    have rest: "\<forall>k. i + 1 \<le> k \<and> k < i + 1 + n \<longrightarrow> no_match (drop k input)"
      using Suc.prems(4) by simp
    have "Compress_loop codeTrie input i out verb =
            Compress_loop codeTrie input (i + 1) out (verb @ [input ! i])"
      using Compress_loop_no_match[OF True flp_no_match[OF nm], of out verb] False by simp
    also have "\<dots> = Compress_loop codeTrie input (i + 1 + n)
        (flushVerbatim out ((verb @ [input ! i]) @ take n (drop (i + 1) input))) []"
      by (rule Suc.IH[OF n small bound rest])
    finally show ?thesis using tk by simp
  qed
qed

lemma no_match_first:
  assumes "list_all (\<lambda>s. \<not> prefix (take 1 (bytes s)) [b]) codeStrings"
  shows "no_match (b # r)"
  unfolding no_match_def
proof
  fix s assume s: "s \<in> set codeStrings"
  show "\<not> prefix (bytes s) (b # r)"
  proof
    assume "prefix (bytes s) (b # r)"
    then have "prefix (take 1 (bytes s)) [b]"
      by (auto simp: prefix_Cons)
    with assms s show False by (simp add: list_all_iff)
  qed
qed

lemma capital_A_fresh: "list_all (\<lambda>s. \<not> prefix (take 1 (bytes s)) [0x41]) codeStrings"
  by (simp add: codeStrings_def bytes_def)

subsection \<open>The output only grows\<close>




subsection \<open>A longest matching entry exists whenever some entry matches\<close>




subsection \<open>Greedy longest match\<close>


text \<open>The input \<open>the\<close>: entries 3 (\<open>t\<close>), 17 (\<open>th\<close>) and 1 (\<open>the\<close>) match; 1 is emitted.\<close>

lemma the_entries:
  "codeStrings ! 1 = ''the''" "codeStrings ! 3 = ''t''" "codeStrings ! 17 = ''th''"
  by (simp_all add: codeStrings_def)



subsection \<open>Escape framing\<close>

text \<open>
  C3. If no codebook entry is a prefix of the one-byte input \<open>[b]\<close>, then \<open>Compress\<close>
  returns exactly \<open>[254, b]\<close>. If no codebook entry matches at either position of the
  two-byte input \<open>[b0, b1]\<close>, then \<open>Compress\<close> returns exactly \<open>[255, 2, b0, b1]\<close>.
\<close>

theorem C3_escape_framing:
  "(no_match [b] \<longrightarrow> Compress (Some [b]) = Inr [254, b])
   \<and> (no_match [b0, b1] \<and> no_match [b1] \<longrightarrow> Compress (Some [b0, b1]) = Inr [255, 2, b0, b1])"
proof (intro conjI impI)
  assume "no_match [b]"
  then have "\<forall>k. 0 \<le> k \<and> k < length [b] \<longrightarrow> no_match (drop k [b])" by simp
  from Compress_loop_run[OF this, of "[]" "[]"]
  have "Compress_loop codeTrie [b] 0 [] [] = ([], [b])" by simp
  then show "Compress (Some [b]) = Inr [254, b]"
    by (simp add: Compress_Some flushVerbatim_small)
next
  assume a: "no_match [b0, b1] \<and> no_match [b1]"
  have "\<forall>k. 0 \<le> k \<and> k < length [b0, b1] \<longrightarrow> no_match (drop k [b0, b1])"
  proof (intro allI impI)
    fix k assume "0 \<le> k \<and> k < length [b0, b1]"
    then have "k = 0 \<or> k = 1" by auto
    with a show "no_match (drop k [b0, b1])" by auto
  qed
  from Compress_loop_run[OF this, of "[]" "[]"]
  have "Compress_loop codeTrie [b0, b1] 0 [] [] = ([], [b0, b1])" by simp
  then show "Compress (Some [b0, b1]) = Inr [255, 2, b0, b1]"
    by (simp add: Compress_Some flushVerbatim_small)
qed

theorem C3_escape_framing_witness:
  "list_all (\<lambda>s. \<not> prefix (take 1 (bytes s)) [0x41]) codeStrings
   \<and> Compress (Some [0x41]) = Inr [254, 0x41]
   \<and> Compress (Some [0x41, 0x41]) = Inr [255, 2, 0x41, 0x41]"
  using C3_escape_framing[of "0x41" "0x41" "0x41"] no_match_first[OF capital_A_fresh] capital_A_fresh
  by simp

subsection \<open>The boundary at 255 unmatched bytes\<close>

text \<open>
  C4. An input of exactly 255 bytes with no codebook match at any position compresses to
  the single frame \<open>[255, 255, b1 .. b255]\<close>. Such an input of 256 bytes compresses to
  that frame for its first 255 bytes followed by \<open>[254, b256]\<close>. The buffer is flushed in
  the very step in which it reaches 255 bytes.
\<close>

theorem C4_boundary_255:
  "(length S = 255 \<and> no_match_run S \<longrightarrow> Compress (Some S) = Inr ([255, 255] @ S))
   \<and> (length S = 256 \<and> no_match_run S \<longrightarrow>
        Compress (Some S) = Inr ([255, 255] @ take 255 S @ [254, S ! 255]))
   \<and> (i < length input \<and> no_match (drop i input) \<and> length verb = 254 \<longrightarrow>
        Compress_loop codeTrie input i out verb =
          Compress_loop codeTrie input (i + 1) (flushVerbatim out (verb @ [input ! i])) [])"
proof (intro conjI impI)
  assume a: "length S = 255 \<and> no_match_run S"
  then have nm: "\<forall>k. 0 \<le> k \<and> k < 0 + 255 \<longrightarrow> no_match (drop k S)"
    by (simp add: no_match_run_def)
  have "Compress_loop codeTrie S 0 [] [] =
          Compress_loop codeTrie S (0 + 255) (flushVerbatim [] ([] @ take 255 (drop 0 S))) []"
    by (rule Compress_loop_fill[OF _ _ _ nm]) (use a in simp_all)
  then have "Compress_loop codeTrie S 0 [] [] = (flushVerbatim [] S, [])"
    using a by (simp add: Compress_loop_end)
  then show "Compress (Some S) = Inr ([255, 255] @ S)"
    using a by (simp add: Compress_Some flushVerbatim_small)
next
  assume a: "length S = 256 \<and> no_match_run S"
  then have nm: "\<forall>k. 0 \<le> k \<and> k < 0 + 255 \<longrightarrow> no_match (drop k S)"
    by (simp add: no_match_run_def)
  have nm': "\<forall>k. 255 \<le> k \<and> k < length S \<longrightarrow> no_match (drop k S)"
    using a by (simp add: no_match_run_def)
  have last: "drop 255 S = [S ! 255]"
    using a Cons_nth_drop_Suc[of 255 S] by simp
  have "Compress_loop codeTrie S 0 [] [] =
          Compress_loop codeTrie S (0 + 255) (flushVerbatim [] ([] @ take 255 (drop 0 S))) []"
    by (rule Compress_loop_fill[OF _ _ _ nm]) (use a in simp_all)
  also have "\<dots> = (flushVerbatim [] (take 255 S), [] @ drop 255 S)"
    using Compress_loop_run[OF nm', of "[]" "flushVerbatim [] (take 255 S)"] a by simp
  finally have "Compress_loop codeTrie S 0 [] [] = (flushVerbatim [] (take 255 S), [S ! 255])"
    using last by simp
  then show "Compress (Some S) = Inr ([255, 255] @ take 255 S @ [254, S ! 255])"
    using a by (simp add: Compress_Some flushVerbatim_small)
next
  assume a: "i < length input \<and> no_match (drop i input) \<and> length verb = 254"
  then have t: "i < length input" and nm: "no_match (drop i input)" by simp_all
  show "Compress_loop codeTrie input i out verb =
          Compress_loop codeTrie input (i + 1) (flushVerbatim out (verb @ [input ! i])) []"
    using Compress_loop_no_match[OF t flp_no_match[OF nm], of out verb] a by simp
qed

lemma no_match_run_replicate:
  assumes "list_all (\<lambda>s. \<not> prefix (take 1 (bytes s)) [b]) codeStrings"
  shows "no_match_run (replicate n b)"
  unfolding no_match_run_def
proof (intro allI impI)
  fix k assume "k < length (replicate n b)"
  then obtain m where "n - k = Suc m" by (cases "n - k") auto
  then have "drop k (replicate n b) = b # replicate m b" by simp
  then show "no_match (drop k (replicate n b))"
    using no_match_first[OF assms] by simp
qed

theorem C4_boundary_255_witness:
  "list_all (\<lambda>s. \<not> prefix (take 1 (bytes s)) [0x41]) codeStrings
   \<and> Compress (Some (replicate 255 0x41)) = Inr ([255, 255] @ replicate 255 0x41)
   \<and> Compress (Some (replicate 256 0x41)) = Inr ([255, 255] @ replicate 255 0x41 @ [254, 0x41])
   \<and> Compress_loop codeTrie (replicate 255 0x41) 254 [] (replicate 254 0x41) =
       Compress_loop codeTrie (replicate 255 0x41) (254 + 1)
         (flushVerbatim [] (replicate 254 0x41 @ [replicate 255 0x41 ! 254])) []"
proof -
  have r255: "length (replicate 255 (0x41 :: byte)) = 255 \<and> no_match_run (replicate 255 0x41)"
    using no_match_run_replicate[OF capital_A_fresh] by simp
  have r256: "length (replicate 256 (0x41 :: byte)) = 256 \<and> no_match_run (replicate 256 0x41)"
    using no_match_run_replicate[OF capital_A_fresh] by simp
  have d: "drop 254 (replicate 255 (0x41 :: byte)) = [0x41]" by simp
  have st: "254 < length (replicate 255 (0x41 :: byte)) \<and>
      no_match (drop 254 (replicate 255 0x41)) \<and> length (replicate 254 (0x41 :: byte)) = 254"
    unfolding d using no_match_first[OF capital_A_fresh] by simp
  have t: "take 255 (replicate 256 (0x41 :: byte)) = replicate 255 0x41" by simp
  have n: "replicate 256 (0x41 :: byte) ! 255 = 0x41" by simp
  from C4_boundary_255[where S = "replicate 255 0x41" and input = "replicate 255 0x41"
      and i = 254 and verb = "replicate 254 0x41" and out = "[]"]
    r255 st
  have a: "Compress (Some (replicate 255 0x41)) = Inr ([255, 255] @ replicate 255 0x41)"
    and c: "Compress_loop codeTrie (replicate 255 0x41) 254 [] (replicate 254 0x41) =
       Compress_loop codeTrie (replicate 255 0x41) (254 + 1)
         (flushVerbatim [] (replicate 254 0x41 @ [replicate 255 0x41 ! 254])) []"
    by blast+
  from C4_boundary_255[where S = "replicate 256 0x41" and input = "replicate 255 0x41"
      and i = 254 and verb = "replicate 254 0x41" and out = "[]"]
    r256
  have b: "Compress (Some (replicate 256 0x41)) =
      Inr ([255, 255] @ take 255 (replicate 256 0x41) @ [254, replicate 256 0x41 ! 255])"
    by blast
  show ?thesis using a b[unfolded t n] c capital_A_fresh by blast
qed

subsection \<open>The PHP implementation computes the same functions\<close>

lemma php_decodeMap_eq: "php_decodeMap = map bytes codeStrings"
  by (simp add: php_decodeMap_def codeStrings_def)

lemma enumerate_map_bytes:
  "enumerate n (map bytes cs) = map (\<lambda>p. case p of (i, s) \<Rightarrow> (i, bytes s)) (enumerate n cs)"
  by (induction cs arbitrary: n) simp_all

lemma lookup_fold_flip:
  "(\<And>k. lookup t k = map_option of_nat (m k)) \<Longrightarrow>
   lookup (fold (\<lambda>p n. case p of (i, s) \<Rightarrow> put n (bytes s) (of_nat i)) xs t) k =
     map_option of_nat
       (fold (\<lambda>p m. case p of (i, s) \<Rightarrow> m(s \<mapsto> i))
          (map (\<lambda>p. case p of (i, s) \<Rightarrow> (i, bytes s)) xs) m k)"
proof (induction xs arbitrary: t m)
  case Nil
  then show ?case by simp
next
  case (Cons x xs)
  obtain i s where x: "x = (i, s)" by (cases x)
  have "\<And>k. lookup (put t (bytes s) (of_nat i)) k = map_option of_nat ((m(bytes s \<mapsto> i)) k)"
    using Cons.prems by (simp add: lookup_put)
  from Cons.IH[OF this] show ?case by (simp add: x)
qed

lemma lookup_getEncodeMap: "lookup codeTrie k = map_option of_nat (getEncodeMap k)"
  using lookup_fold_flip[of emptyNode Map.empty "enumerate 0 codeStrings" k]
  by (simp add: codeTrie_def init_def fold_init_step_snd getEncodeMap_def array_flip_def
      php_decodeMap_eq enumerate_map_bytes lookup_emptyNode)

lemma php_match_None:
  "php_match em input i m = None \<Longrightarrow> 0 < j \<Longrightarrow> j \<le> m \<Longrightarrow> em (take j (drop i input)) = None"
proof (induction m)
  case 0
  then show ?case by simp
next
  case (Suc m)
  then show ?case by (cases "j = Suc m") (auto split: option.splits)
qed

lemma php_match_Some:
  "php_match em input i m = Some (j, c) \<Longrightarrow>
     0 < j \<and> j \<le> m \<and> em (take j (drop i input)) = Some c \<and>
     (\<forall>j'. j < j' \<and> j' \<le> m \<longrightarrow> em (take j' (drop i input)) = None)"
proof (induction m)
  case 0
  then show ?case by simp
next
  case (Suc m)
  show ?case
  proof (cases "em (take (Suc m) (drop i input))")
    case None
    with Suc.prems have "php_match em input i m = Some (j, c)" by simp
    from Suc.IH[OF this] None show ?thesis
      by (auto simp: le_Suc_eq)
  next
    case (Some c')
    with Suc.prems show ?thesis by auto
  qed
qed

lemma prefix_take_conv:
  assumes "prefix p (take m r)"
  shows "p = take (length p) r \<and> length p \<le> m"
proof -
  from assms obtain zs where z: "take m r = p @ zs" by (auto simp: prefix_def)
  then have "length p \<le> length (take m r)" by simp
  then have le: "length p \<le> m" by simp
  have "take (length p) r = take (length p) (take m r)" using le by (simp add: min_def)
  also have "\<dots> = p" unfolding z by simp
  finally show ?thesis using le by simp
qed

lemma flp_php_match:
  assumes rel: "\<And>k. lookup t k = map_option of_nat (em k)"
    and m: "m \<le> length (drop i input)"
  shows "case php_match em input i m of
           None \<Rightarrow> fst (findLongestPrefix t (take m (drop i input))) = 0
         | Some (j, c) \<Rightarrow> findLongestPrefix t (take m (drop i input)) = (j, of_nat c)"
proof -
  let ?r = "drop i input"
  obtain m' c' where mc: "findLongestPrefix t (take m ?r) = (m', c')"
    by (cases "findLongestPrefix t (take m ?r)")
  note spec = flp_spec[OF mc]
  show ?thesis
  proof (cases "php_match em input i m")
    case None
    have "m' = 0"
    proof (rule ccontr)
      assume "m' \<noteq> 0"
      with spec obtain p where p: "p \<noteq> []" "prefix p (take m ?r)" "lookup t p = Some c'"
        by blast
      from prefix_take_conv[OF p(2)] p(1)
      have "p = take (length p) ?r" "0 < length p" "length p \<le> m" by auto
      with php_match_None[OF None, of "length p"] have "em p = None" by simp
      with p(3) rel show False by simp
    qed
    with mc None show ?thesis by simp
  next
    case (Some jc)
    obtain j c where jc: "jc = (j, c)" by (cases jc)
    from php_match_Some[OF Some[unfolded jc]]
    have j: "0 < j" "j \<le> m" "em (take j ?r) = Some c"
      "\<forall>j'. j < j' \<and> j' \<le> m \<longrightarrow> em (take j' ?r) = None" by auto
    have lenj: "length (take j ?r) = j" using j(2) m by simp
    have "take j ?r = take j (take m ?r)" using j(2) by (simp add: min_def)
    then have pj: "prefix (take j ?r) (take m ?r)"
      using take_is_prefix[of j "take m ?r"] by simp
    have lj: "lookup t (take j ?r) = Some (of_nat c)" using rel j(3) by simp
    have nej: "take j ?r \<noteq> []" using lenj j(1) by auto
    from spec pj lj nej
    obtain p where p: "p \<noteq> []" "prefix p (take m ?r)" "m' = length p" "lookup t p = Some c'"
      "\<forall>p'. prefix p' (take m ?r) \<and> length p < length p' \<longrightarrow> lookup t p' = None"
      by auto
    from prefix_take_conv[OF p(2)] have pp: "p = take (length p) ?r" "length p \<le> m" by auto
    have "\<not> length p < j" using p(5) pj lj lenj by auto
    moreover have "\<not> j < length p"
    proof
      assume "j < length p"
      with j(4) pp(2) have "em (take (length p) ?r) = None" by blast
      with pp(1) have "em p = None" by simp
      with p(4) rel show False by simp
    qed
    ultimately have "length p = j" by simp
    with pp(1) p(3,4) lj mc have "findLongestPrefix t (take m ?r) = (j, of_nat c)" by simp
    with Some jc show ?thesis by simp
  qed
qed

lemma php_flushVerbatim_loop_eq:
  "php_flushVerbatim_loop out v pos = flushVerbatim_loop out v pos"
proof (induction "length v - pos" arbitrary: out pos rule: less_induct)
  case less
  show ?case
  proof (cases "pos < length v")
    case False
    then show ?thesis
      by (subst php_flushVerbatim_loop.simps) (simp add: flushVerbatim_loop_end)
  next
    case True
    let ?cs = "min 255 (length v - pos)"
    let ?o1 = "if ?cs = 1 then out @ [254] else out @ [255, of_nat ?cs]"
    have meas: "length v - (pos + ?cs) < length v - pos" using True by auto
    have "php_flushVerbatim_loop out v pos =
            php_flushVerbatim_loop (?o1 @ take ?cs (drop pos v)) v (pos + ?cs)"
      using True by (subst php_flushVerbatim_loop.simps) (simp add: Let_def)
    also have "\<dots> = flushVerbatim_loop (?o1 @ take ?cs (drop pos v)) v (pos + ?cs)"
      by (rule less.hyps[OF meas])
    also have "\<dots> = flushVerbatim_loop out v pos"
      using True
      by (subst (2) flushVerbatim_loop.simps)
         (simp add: Let_def min_def verbatimByte_def verbatimString_def)
    finally show ?thesis .
  qed
qed

lemma flushVerbatim_loop_out:
  "flushVerbatim_loop out v pos = out @ flushVerbatim_loop [] v pos"
proof (induction "length v - pos" arbitrary: out pos rule: less_induct)
  case less
  show ?case
  proof (cases "pos < length v")
    case False
    then show ?thesis by (simp add: flushVerbatim_loop_end)
  next
    case True
    let ?cs = "if length v - pos < 255 then length v - pos else 255"
    let ?h = "(if ?cs = 1 then [verbatimByte] else [verbatimString, of_nat ?cs])
                @ take ?cs (drop pos v)"
    have meas: "length v - (pos + ?cs) < length v - pos" using True by auto
    have unf: "flushVerbatim_loop x v pos = flushVerbatim_loop (x @ ?h) v (pos + ?cs)" for x
      using True by (subst flushVerbatim_loop.simps) (simp add: Let_def)
    have "flushVerbatim_loop out v pos = (out @ ?h) @ flushVerbatim_loop [] v (pos + ?cs)"
      unfolding unf[of out] by (rule less.hyps[OF meas])
    also have "\<dots> = out @ flushVerbatim_loop ([] @ ?h) v (pos + ?cs)"
      using less.hyps[OF meas, of "[] @ ?h"] by simp
    also have "\<dots> = out @ flushVerbatim_loop [] v pos"
      unfolding unf[of "[]"] ..
    finally show ?thesis .
  qed
qed

lemma flushVerbatim_php: "flushVerbatim out v = out @ php_flushVerbatim v"
  unfolding flushVerbatim_def php_flushVerbatim_def php_flushVerbatim_loop_eq
  by (rule flushVerbatim_loop_out)

lemma php_compress_loop_end:
  "length input \<le> i \<Longrightarrow> php_compress_loop em input i output verbatim = (output, verbatim)"
  by (subst php_compress_loop.simps) simp

lemma php_compress_loop_eq:
  "php_compress_loop getEncodeMap input i out verb = Compress_loop codeTrie input i out verb"
proof (induction "length input - i" arbitrary: i out verb rule: less_induct)
  case less
  show ?case
  proof (cases "i < length input")
    case False
    then show ?thesis by (simp add: php_compress_loop_end Compress_loop_end)
  next
    case True
    let ?m = "min 7 (length input - i)"
    have m: "?m \<le> length (drop i input)" by simp
    have tk: "take ?m (drop i input) = take 7 (drop i input)" by (simp add: min_def)
    note rel = flp_php_match[of codeTrie getEncodeMap ?m i input, OF lookup_getEncodeMap m,
        unfolded tk]
    show ?thesis
    proof (cases "php_match getEncodeMap input i ?m")
      case None
      with rel have m0: "fst (findLongestPrefix codeTrie (take 7 (drop i input))) = 0" by simp
      have meas: "length input - (i + 1) < length input - i" using True by simp
      have "php_compress_loop getEncodeMap input i out verb =
          (if length verb = 254
           then php_compress_loop getEncodeMap input (i + 1)
                  (out @ php_flushVerbatim (verb @ [input ! i])) []
           else php_compress_loop getEncodeMap input (i + 1) out (verb @ [input ! i]))"
        using True None by (subst php_compress_loop.simps) (simp add: Let_def)
      also have "\<dots> =
          (if length verb = 254
           then Compress_loop codeTrie input (i + 1) (flushVerbatim out (verb @ [input ! i])) []
           else Compress_loop codeTrie input (i + 1) out (verb @ [input ! i]))"
        using less.hyps[OF meas] by (simp add: flushVerbatim_php)
      also have "\<dots> = Compress_loop codeTrie input i out verb"
        by (rule Compress_loop_no_match[OF True m0, symmetric])
      finally show ?thesis .
    next
      case (Some jc)
      obtain j c where jc: "jc = (j, c)" by (cases jc)
      from rel Some jc
      have mc: "findLongestPrefix codeTrie (take 7 (drop i input)) = (j, of_nat c)" by simp
      have jpos: "0 < j" using php_match_pos Some jc by blast
      have meas: "length input - (i + j) < length input - i" using True jpos by simp
      have "php_compress_loop getEncodeMap input i out verb =
          php_compress_loop getEncodeMap input (i + j)
            ((if verb = [] then out else out @ php_flushVerbatim verb) @ [of_nat c]) []"
        using True Some jc by (subst php_compress_loop.simps) (simp add: Let_def)
      also have "\<dots> = Compress_loop codeTrie input (i + j)
            ((if verb = [] then out else flushVerbatim out verb) @ [of_nat c]) []"
        by (simp add: less.hyps[OF meas] flushVerbatim_php)
      also have "\<dots> = Compress_loop codeTrie input i out verb"
        by (rule Compress_loop_match[OF True mc jpos, symmetric])
      finally show ?thesis .
    qed
  qed
qed

lemma unat_byte_254: "unat (c :: byte) = 254 \<longleftrightarrow> c = 254"
  using word_unat_eq_iff[of c 254] by simp

lemma unat_byte_255: "unat (c :: byte) = 255 \<longleftrightarrow> c = 255"
  using word_unat_eq_iff[of c 255] by simp

lemma php_decompress_loop_step:
  "i < length input \<Longrightarrow>
   php_decompress_loop dm input i out =
     (if input ! i = 254 then
        if length input \<le> i + 1
        then Inl (RuntimeException ''Incomplete verbatim byte sequence'')
        else php_decompress_loop dm input (i + 2) (out @ [input ! (i + 1)])
      else if input ! i = 255 then
        if length input \<le> i + 1
        then Inl (RuntimeException ''Incomplete verbatim string length'')
        else if length input < i + 2 + unat (input ! (i + 1))
        then Inl (RuntimeException ''Incomplete verbatim string data'')
        else php_decompress_loop dm input (i + 2 + unat (input ! (i + 1)))
               (out @ take (unat (input ! (i + 1))) (drop (i + 2) input))
      else if length dm \<le> unat (input ! i)
      then Inl (RuntimeException (''Invalid code: '' @ decimal (unat (input ! i))))
      else php_decompress_loop dm input (i + 1) (out @ dm ! unat (input ! i)))"
  by (subst php_decompress_loop.simps) (simp add: Let_def unat_byte_254 unat_byte_255)

lemma php_decompress_loop_end:
  "length input \<le> i \<Longrightarrow> php_decompress_loop dm input i out = Inr out"
  by (subst php_decompress_loop.simps) simp

lemma php_decompress_loop_agree:
  "(\<exists>e x. Decompress_loop dm input i out = Inl e \<and>
          php_decompress_loop (map bytes dm) input i out = Inl x) \<or>
   (\<exists>r. Decompress_loop dm input i out = Inr r \<and>
        php_decompress_loop (map bytes dm) input i out = Inr r)"
proof (induction "length input - i" arbitrary: i out rule: less_induct)
  case less
  show ?case
  proof (cases "i < length input")
    case False
    then show ?thesis by (simp add: Decompress_loop_end php_decompress_loop_end)
  next
    case True
    have IH: "(\<exists>e x. Decompress_loop dm input i' out' = Inl e \<and>
          php_decompress_loop (map bytes dm) input i' out' = Inl x) \<or>
       (\<exists>r. Decompress_loop dm input i' out' = Inr r \<and>
          php_decompress_loop (map bytes dm) input i' out' = Inr r)" if "i < i'" for i' out'
      using less.hyps[of i' out'] that True by simp
    show ?thesis
      unfolding Decompress_loop_step[OF True, of dm out]
        php_decompress_loop_step[OF True, of "map bytes dm" out]
      using IH[of "i + 2"] IH[of "i + 1"] IH[of "i + 2 + unat (input ! (i + 1))"]
      by (simp add: not_le)
  qed
qed

text \<open>
  C7. The Go and the PHP implementation compute the same functions: on every byte
  sequence \<open>S\<close>, Go's \<open>Compress\<close> succeeds with exactly the bytes of PHP's
  \<open>Smaz::compress\<close>, and Go's \<open>Decompress\<close> and PHP's \<open>Smaz::decompress\<close> either both
  fail or both succeed with the same bytes. (The PHP parameters are typed
  \<^verbatim>\<open>string\<close>, so an absent input is a case of the Go functions only.)
\<close>

theorem C7_go_php_agree:
  "Compress (Some S) = Inr (php_compress S)
   \<and> ((\<exists>e x. Decompress (Some S) = Inl e \<and> php_decompress S = Inl x) \<or>
      (\<exists>r. Decompress (Some S) = Inr r \<and> php_decompress S = Inr r))"
proof
  show "Compress (Some S) = Inr (php_compress S)"
    by (simp add: Compress_Some php_compress_def php_compress_loop_eq flushVerbatim_php
        split: prod.splits)
  show "(\<exists>e x. Decompress (Some S) = Inl e \<and> php_decompress S = Inl x) \<or>
      (\<exists>r. Decompress (Some S) = Inr r \<and> php_decompress S = Inr r)"
    using php_decompress_loop_agree[of codeStrings S 0 "[]"]
    by (simp add: Decompress_Some php_decompress_def decodeMap_eq php_decodeMap_eq)
qed

section \<open>Round trip\<close>

text \<open>
  C1. For every byte sequence \<open>S\<close> (the empty one, sequences with bytes outside every
  codebook entry, sequences with any byte value 0-255, the escape values 254 and 255
  included), \<open>Compress\<close> succeeds and \<open>Decompress\<close> of its output succeeds and returns
  exactly \<open>S\<close>.
\<close>

theorem C1_roundtrip:
  "\<exists>z. Compress (Some S) = Inr z \<and> Decompress (Some z) = Inr S"
proof -
  obtain out' verb' where run: "Compress_loop codeTrie S 0 [] [] = (out', verb')"
    by (cases "Compress_loop codeTrie S 0 [] []")
  from Compress_loop_roundtrip[OF run, of "[]"]
  obtain pre' where p: "Decompress_loop decodeMap out' 0 [] = Inr pre'" "pre' @ verb' = S"
    "length verb' < 255" by (auto simp: dec_Nil)
  show ?thesis
  proof (cases "verb' = []")
    case True
    with run p show ?thesis by (simp add: Compress_Some Decompress_Some)
  next
    case False
    with p dec_flush[OF p(1), of verb'] run show ?thesis
      by (simp add: Compress_Some Decompress_Some)
  qed
qed

section \<open>Decoder failures\<close>

text \<open>
  C5. \<open>Decompress\<close> fails with a truncation error exactly when the input is a sequence of
  complete tokens followed by an incomplete one: 254 as the last byte, 255 as the last
  byte, or 255 and a length byte \<open>L\<close> followed by fewer than \<open>L\<close> bytes. In particular
  \<open>[254]\<close> and \<open>[255, 5, 1, 2]\<close> fail, with an error and no output, while the token
  \<open>[255, 0]\<close> is legal and contributes no bytes, wherever it stands.
\<close>

theorem C5_truncation:
  "((\<exists>e. Decompress (Some S) = Inl e \<and> truncation_error e) \<longleftrightarrow>
      (\<exists>p t. S = p @ t \<and> token_stream p \<and> incomplete_token t))
   \<and> Decompress (Some [254]) = Inl (SmazError ''incomplete verbatim byte sequence'')
   \<and> Decompress (Some [255, 5, 1, 2]) = Inl (SmazError ''incomplete verbatim string data'')
   \<and> Decompress (Some [255, 0]) = Inr []
   \<and> Decompress (Some (255 # 0 # s)) = Decompress (Some s)"
proof -
  have big: "254 \<le> length decodeMap" by (simp add: decodeMap_eq codeStrings_length)
  have "(\<exists>e. Decompress (Some S) = Inl e \<and> truncation_error e) \<longleftrightarrow>
      (\<exists>p t. S = p @ t \<and> token_stream p \<and> incomplete_token t)"
  proof
    assume "\<exists>e. Decompress (Some S) = Inl e \<and> truncation_error e"
    then show "\<exists>p t. S = p @ t \<and> token_stream p \<and> incomplete_token t"
      using dec_failure[OF big, of S] by (auto simp: Decompress_Some)
  next
    assume "\<exists>p t. S = p @ t \<and> token_stream p \<and> incomplete_token t"
    then obtain p t where pt: "S = p @ t" "token_stream p" "incomplete_token t" by blast
    from token_stream_dec[OF pt(2) big] obtain rp where
      rp: "Decompress_loop decodeMap p 0 [] = Inr rp" by blast
    from dec_incomplete[OF pt(3), of decodeMap] obtain e where
      e: "Decompress_loop decodeMap t 0 [] = Inl e" "truncation_error e" by blast
    have "Decompress_loop decodeMap (p @ t) 0 [] = Inl e"
      using dec_append[OF rp, of t] e(1) by simp
    with e(2) pt(1) show "\<exists>e. Decompress (Some S) = Inl e \<and> truncation_error e"
      by (auto simp: Decompress_Some)
  qed
  moreover have "Decompress (Some [254]) = Inl (SmazError ''incomplete verbatim byte sequence'')"
    by (simp add: Decompress_Some dec_byte_trunc)
  moreover have "Decompress (Some [255, 5, 1, 2]) =
      Inl (SmazError ''incomplete verbatim string data'')"
    by (simp add: Decompress_Some dec_string_trunc)
  moreover have z: "Decompress (Some (255 # 0 # s)) = Decompress (Some s)" for s
    using dec_string[of "[]" 0 decodeMap s] by (simp add: Decompress_Some split: sum.splits)
  moreover have "Decompress (Some [255, 0]) = Inr []"
    using z[of "[]"] by (simp add: Decompress_Some dec_Nil)
  ultimately show ?thesis by blast
qed

theorem C5_truncation_witness:
  "([1, 255, 5, 1, 2] = [1] @ [255, 5, 1, 2 :: byte] \<and> token_stream [1] \<and>
      incomplete_token [255, 5, 1, 2]) \<and>
   (\<exists>e. Decompress (Some [1, 255, 5, 1, 2]) = Inl e \<and> truncation_error e)"
proof -
  have ts: "token_stream [1]"
    by (rule ts_code) (simp_all add: ts_Nil)
  have h: "[1, 255, 5, 1, 2] = [1] @ [255, 5, 1, 2 :: byte] \<and> token_stream [1] \<and>
      incomplete_token [255, 5, 1, 2]"
    using ts by simp
  then have "\<exists>p t. [1, 255, 5, 1, 2] = p @ t \<and> token_stream p \<and> incomplete_token t"
    by blast
  with C5_truncation[of "[1, 255, 5, 1, 2]"] h show ?thesis by blast
qed

text \<open>
  C6. At a byte \<open>c\<close> other than 254 and 255 the decoder appends the codebook entry with
  index \<open>c\<close> to the output and moves one byte on: after a stream \<open>p\<close> that decodes to
  \<open>rp\<close>, the stream \<open>p @ c # s\<close> decodes to \<open>rp\<close>, then the bytes of entry \<open>c\<close>, then
  whatever \<open>s\<close> decodes to (for instance \<open>[1]\<close> decodes to \<open>the\<close>), and the loop returns
  the accumulated output when the cursor reaches the end. It fails with the invalid-code
  error only when the byte is not below the size of the decode table. The shipped table
  is the codebook and has 254 entries, so every such byte is a valid index and no input
  makes \<open>Decompress\<close> return that error; a table on which the error occurs has fewer
  than 254 entries.
\<close>

theorem C6_code_lookup:
  "(i < length input \<and> input ! i \<noteq> 254 \<and> input ! i \<noteq> 255 \<longrightarrow>
      Decompress_loop dm input i out =
        (if unat (input ! i) < length dm
         then Decompress_loop dm input (i + 1) (out @ bytes (dm ! unat (input ! i)))
         else Inl (SmazError ''invalid code'')))
   \<and> (length input \<le> i \<longrightarrow> Decompress_loop dm input i out = Inr out)
   \<and> (c \<noteq> 254 \<and> c \<noteq> 255 \<and> Decompress_loop dm p 0 [] = Inr rp \<longrightarrow>
        Decompress_loop dm (p @ c # s) 0 [] =
          (if unat c < length dm
           then (case Decompress_loop dm s 0 [] of
                   Inl e \<Rightarrow> Inl e
                 | Inr r \<Rightarrow> Inr (rp @ bytes (dm ! unat c) @ r))
           else Inl (SmazError ''invalid code'')))
   \<and> (c \<noteq> 254 \<and> c \<noteq> 255 \<and> Decompress (Some p) = Inr rp \<longrightarrow>
        unat c < length codeStrings \<and>
        Decompress (Some (p @ c # s)) =
          (case Decompress (Some s) of
             Inl e \<Rightarrow> Inl e
           | Inr r \<Rightarrow> Inr (rp @ bytes (codeStrings ! unat c) @ r)))
   \<and> Decompress (Some [1]) = Inr (bytes ''the'')
   \<and> decodeMap = codeStrings
   \<and> length decodeMap = 254
   \<and> (input ! i \<noteq> 254 \<and> input ! i \<noteq> 255 \<longrightarrow> unat (input ! i) < length decodeMap)
   \<and> Decompress x \<noteq> Inl (SmazError ''invalid code'')
   \<and> (Decompress_loop dm input 0 [] = Inl (SmazError ''invalid code'') \<longrightarrow> length dm < 254)"
proof -
  have len: "length decodeMap = 254" by (simp add: decodeMap_eq codeStrings_length)
  have nt: "\<not> truncation_error (SmazError ''invalid code'')"
    by (simp add: truncation_error_def)
  have step: "i < length input \<and> input ! i \<noteq> 254 \<and> input ! i \<noteq> 255 \<longrightarrow>
      Decompress_loop dm input i out =
        (if unat (input ! i) < length dm
         then Decompress_loop dm input (i + 1) (out @ bytes (dm ! unat (input ! i)))
         else Inl (SmazError ''invalid code''))"
    using Decompress_loop_step[of i input dm out] by auto
  have stop: "length input \<le> i \<longrightarrow> Decompress_loop dm input i out = Inr out"
    by (simp add: Decompress_loop_end)
  have tok: "Decompress_loop dm' (p @ c # s) 0 [] =
          (if unat c < length dm'
           then (case Decompress_loop dm' s 0 [] of
                   Inl e \<Rightarrow> Inl e
                 | Inr r \<Rightarrow> Inr (rp @ bytes (dm' ! unat c) @ r))
           else Inl (SmazError ''invalid code''))"
    if "c \<noteq> 254 \<and> c \<noteq> 255 \<and> Decompress_loop dm' p 0 [] = Inr rp" for dm'
  proof -
    from that have c: "c \<noteq> 254" "c \<noteq> 255" and p: "Decompress_loop dm' p 0 [] = Inr rp"
      by simp_all
    show ?thesis
      unfolding dec_append[OF p, of "c # s"] dec_code[OF c, of dm' s]
      by (simp add: not_le split: sum.splits)
  qed
  have shipped: "c \<noteq> 254 \<and> c \<noteq> 255 \<and> Decompress (Some p) = Inr rp \<longrightarrow>
        unat c < length codeStrings \<and>
        Decompress (Some (p @ c # s)) =
          (case Decompress (Some s) of
             Inl e \<Rightarrow> Inl e
           | Inr r \<Rightarrow> Inr (rp @ bytes (codeStrings ! unat c) @ r))"
  proof
    assume a: "c \<noteq> 254 \<and> c \<noteq> 255 \<and> Decompress (Some p) = Inr rp"
    then have lt: "unat c < length codeStrings"
      using byte_lt_254[of c] by (simp add: codeStrings_length)
    from a have "c \<noteq> 254 \<and> c \<noteq> 255 \<and> Decompress_loop codeStrings p 0 [] = Inr rp"
      by (simp add: Decompress_Some decodeMap_eq)
    from tok[OF this] lt
    show "unat c < length codeStrings \<and>
        Decompress (Some (p @ c # s)) =
          (case Decompress (Some s) of
             Inl e \<Rightarrow> Inl e
           | Inr r \<Rightarrow> Inr (rp @ bytes (codeStrings ! unat c) @ r))"
      by (simp add: Decompress_Some decodeMap_eq)
  qed
  have the: "Decompress (Some [1]) = Inr (bytes ''the'')"
    using dec_single_code[of 1] unfolding the_entries
    by (simp add: Decompress_Some codeStrings_length)
  have idx: "input ! i \<noteq> 254 \<and> input ! i \<noteq> 255 \<longrightarrow> unat (input ! i) < length decodeMap"
    using byte_lt_254[of "input ! i"] len by simp
  have never: "Decompress x \<noteq> Inl (SmazError ''invalid code'')"
  proof (cases x)
    case None
    then show ?thesis by (simp add: Decompress_def)
  next
    case (Some z)
    show ?thesis
    proof
      assume "Decompress x = Inl (SmazError ''invalid code'')"
      then have "Decompress_loop decodeMap z 0 [] = Inl (SmazError ''invalid code'')"
        using Some by (simp add: Decompress_Some)
      from dec_failure[OF _ this] len nt show False by simp
    qed
  qed
  have small: "Decompress_loop dm input 0 [] = Inl (SmazError ''invalid code'') \<longrightarrow>
      length dm < 254"
  proof
    assume a: "Decompress_loop dm input 0 [] = Inl (SmazError ''invalid code'')"
    show "length dm < 254"
    proof (rule ccontr)
      assume "\<not> length dm < 254"
      then have "254 \<le> length dm" by simp
      from dec_failure[OF this a] nt show False by simp
    qed
  qed
  from step stop tok[of dm] shipped the decodeMap_eq len idx never small show ?thesis
    by blast
qed

theorem C6_code_lookup_witness:
  "(0 < length [0 :: byte] \<and> [0 :: byte] ! 0 \<noteq> 254 \<and> [0 :: byte] ! 0 \<noteq> 255)
   \<and> Decompress_loop [] [0] 0 [] = Inl (SmazError ''invalid code'')
   \<and> length ([] :: string list) < 254
   \<and> unat ([0 :: byte] ! 0) < length decodeMap
   \<and> Decompress (Some [254, 65]) = Inr [65]
   \<and> (1 :: byte) \<noteq> 254 \<and> (1 :: byte) \<noteq> 255
   \<and> codeStrings ! unat (1 :: byte) = ''the''
   \<and> Decompress (Some ([254, 65] @ 1 # [])) = Inr ([65] @ bytes ''the'')
   \<and> Decompress_loop decodeMap [254, 65, 1] 3 ([65] @ bytes ''the'') = Inr ([65] @ bytes ''the'')"
proof -
  have err: "(0 < length [0 :: byte] \<and> [0 :: byte] ! 0 \<noteq> 254 \<and> [0 :: byte] ! 0 \<noteq> 255)
     \<and> Decompress_loop [] [0] 0 [] = Inl (SmazError ''invalid code'')
     \<and> length ([] :: string list) < 254
     \<and> unat ([0 :: byte] ! 0) < length decodeMap"
    using C6_code_lookup[where i = 0 and input = "[0]" and dm = "[]" and out = "[]"
        and c = 0 and p = "[]" and rp = "[]" and s = "[]" and x = None] by auto
  have h: "Decompress (Some [254, 65]) = Inr [65]"
    by (simp add: Decompress_Some dec_byte dec_Nil)
  have e: "Decompress (Some []) = Inr []"
    by (simp add: Decompress_Some dec_Nil)
  have u: "unat (1 :: byte) = 1" by simp
  have t: "codeStrings ! unat (1 :: byte) = ''the''"
    unfolding u by (rule the_entries(1))
  have c: "(1 :: byte) \<noteq> 254 \<and> (1 :: byte) \<noteq> 255" by simp
  from C6_code_lookup[where c = 1 and p = "[254, 65]" and rp = "[65]" and s = "[]"] c h
  have "Decompress (Some ([254, 65] @ 1 # [])) =
          (case Decompress (Some []) of
             Inl e \<Rightarrow> Inl e
           | Inr r \<Rightarrow> Inr ([65] @ bytes (codeStrings ! unat (1 :: byte)) @ r))"
    by blast
  then have ok: "Decompress (Some ([254, 65] @ 1 # [])) = Inr ([65] @ bytes ''the'')"
    unfolding e t by simp
  have stop: "Decompress_loop decodeMap [254, 65, 1] 3 ([65] @ bytes ''the'') =
      Inr ([65] @ bytes ''the'')"
    using C6_code_lookup[where i = 3 and input = "[254, 65, 1]" and dm = decodeMap
        and out = "[65] @ bytes ''the''" and c = 0 and p = "[]" and rp = "[]" and s = "[]"
        and x = None] by auto
  from err h c t ok stop show ?thesis by blast
qed

section \<open>Empty and missing inputs\<close>

text \<open>
  C8. \<open>Compress\<close> of the empty byte sequence returns the empty byte sequence, and
  \<open>Decompress\<close> of the empty byte sequence succeeds with the empty byte sequence.
\<close>

theorem C8_empty_input:
  "Compress (Some []) = Inr [] \<and> Decompress (Some []) = Inr []"
  by (simp add: Compress_def Decompress_def Compress_loop_end Decompress_loop_end)

text \<open>
  C9. \<open>Compress\<close> succeeds on every byte sequence that is present, the empty one
  included; an absent (nil) input, which is not the empty sequence, is rejected with an
  error by \<open>Compress\<close> and by \<open>Decompress\<close>.
\<close>

theorem C9_nil_input:
  "(\<exists>r. Compress (Some S) = Inr r)
   \<and> Compress None = Inl (SmazError ''input cannot be nil'')
   \<and> Decompress None = Inl (SmazError ''input cannot be nil'')
   \<and> Compress (Some []) \<noteq> Compress None
   \<and> Decompress (Some []) \<noteq> Decompress None"
proof -
  have nil: "Compress None = Inl (SmazError ''input cannot be nil'')"
    "Decompress None = Inl (SmazError ''input cannot be nil'')"
    by (simp_all add: Compress_def Decompress_def)
  have ok: "\<exists>r. Compress (Some S) = Inr r" for S
    by (simp add: Compress_Some)
  have "Compress (Some []) \<noteq> Compress None"
    using ok[of "[]"] nil by auto
  moreover have "Decompress (Some []) \<noteq> Decompress None"
    using nil by (simp add: Decompress_Some Decompress_loop_end)
  ultimately show ?thesis using nil ok by blast
qed

section \<open>Concatenation of streams\<close>

text \<open>
  C10. If \<open>Decompress a\<close> succeeds, then \<open>Decompress (a @ b)\<close> succeeds exactly when
  \<open>Decompress b\<close> does, and then its result is the result for \<open>a\<close> followed by the
  result for \<open>b\<close>.
\<close>

theorem C10_concat:
  assumes "Decompress (Some a) = Inr ra"
  shows "((\<exists>rab. Decompress (Some (a @ b)) = Inr rab) \<longleftrightarrow> (\<exists>rb. Decompress (Some b) = Inr rb))
         \<and> (\<forall>rb. Decompress (Some b) = Inr rb \<longrightarrow> Decompress (Some (a @ b)) = Inr (ra @ rb))"
proof -
  from assms have a: "Decompress_loop decodeMap a 0 [] = Inr ra"
    by (simp add: Decompress_Some)
  show ?thesis
    unfolding Decompress_Some dec_append[OF a, of b]
    by (cases "Decompress_loop decodeMap b 0 []") simp_all
qed

theorem C10_concat_witness:
  "Decompress (Some [254, 65]) = Inr [65] \<and> Decompress (Some [254, 66]) = Inr [66]
   \<and> Decompress (Some ([254, 65] @ [254, 66])) = Inr ([65] @ [66])"
proof -
  have h1: "Decompress (Some [254, 65]) = Inr [65]"
    by (simp add: Decompress_Some dec_byte dec_Nil)
  have h2: "Decompress (Some [254, 66]) = Inr [66]"
    by (simp add: Decompress_Some dec_byte dec_Nil)
  from C10_concat[OF h1, of "[254, 66]"] h1 h2 show ?thesis by blast
qed

end
